theory Spec2Isabelle
  imports Main "HOL-Library.Multiset" "HOL-Library.Sublist"
begin

section \<open>Data model of main.go\<close>

text \<open>
  Go strings are byte sequences: a Go \<^verbatim>\<open>string\<close> is a \<^typ>\<open>string\<close> (a list of
  8-bit \<^typ>\<open>char\<close>), and a rune or a byte value is read as a \<^typ>\<open>nat\<close>.
\<close>

record FileContent =
  Path :: string
  Content :: string

record FileScanner =
  Root :: string
  IgnoredNames :: "string \<rightharpoonup> bool"
  Patterns :: "string list"
  AllowedExts :: "string \<rightharpoonup> bool"

text \<open>Indexing a Go \<^verbatim>\<open>map[string]bool\<close>: a missing key reads as the zero value \<^verbatim>\<open>false\<close>.\<close>

definition index_bool :: "(string \<rightharpoonup> bool) \<Rightarrow> string \<Rightarrow> bool" where
  "index_bool m k = (case m k of None \<Rightarrow> False | Some b \<Rightarrow> b)"

text \<open>
  Error values. \<^verbatim>\<open>filepath.SkipDir\<close>, \<^verbatim>\<open>filepath.SkipAll\<close> and
  \<^verbatim>\<open>filepath.ErrBadPattern\<close> are the sentinels of path/filepath; every error of the
  operating system reaches the program as an \<^verbatim>\<open>*fs.PathError{Op, Path, Err}\<close>.
  \<open>NilDereference\<close> stands for the run-time panic of a method call on a \<^verbatim>\<open>nil\<close>
  interface value.
\<close>

type_synonym errno = nat

datatype error = SkipDir | SkipAll | ErrBadPattern | PathError string string errno | NilDereference

text \<open>
  What the program sees of the file system. \<^verbatim>\<open>filepath.WalkDir\<close> looks at names and
  at whether an entry is a directory, never at contents: a tree is either a
  non-directory entry (\<open>File\<close>: a regular file, a symbolic link, a device) or a directory
  with the entries \<^verbatim>\<open>os.ReadDir\<close> returns for it (sorted by name) and the error that
  call returns, if any, as the operation that failed and its errno. The operating
  system answers three calls of the program: \<^verbatim>\<open>os.Lstat\<close> of the root,
  \<^verbatim>\<open>os.ReadFile\<close> of a path a worker received, and \<^verbatim>\<open>os.Open\<close> of the ignore-file,
  whose answer is the bytes a reader gets from the opened file before end of file or
  a read error (\<^verbatim>\<open>bufio.Scanner\<close> ends its input at both, and the program never asks
  which it was).
\<close>

datatype fsnode = File | Dir "(string \<times> fsnode) list" "(string \<times> errno) option"

record os =
  Lstat :: "string \<Rightarrow> errno + fsnode"
  ReadFile :: "string \<Rightarrow> errno + string"
  Open :: "string \<Rightarrow> errno + string"

section \<open>The standard library functions the scanner calls\<close>

subsection \<open>unicode/utf8 and unicode.IsSpace\<close>

definition RuneError :: nat where
  "RuneError = 0xFFFD"

text \<open>
  \<^verbatim>\<open>utf8.DecodeRuneInString\<close>: the rune at the start of \<open>s\<close> and its width in bytes;
  \<open>(RuneError, 0)\<close> for the empty string and \<open>(RuneError, 1)\<close> for an invalid
  encoding. The tables \<^verbatim>\<open>first\<close> and \<^verbatim>\<open>acceptRanges\<close> of the package are written
  out as the ranges they hold.
\<close>

definition DecodeRuneInString :: "string \<Rightarrow> nat \<times> nat" where
  "DecodeRuneInString s =
     (case s of
        [] \<Rightarrow> (RuneError, 0)
      | c0 # _ \<Rightarrow>
          (let s0 = (of_char c0 :: nat) in
           if s0 < 0x80 then (s0, 1)
           else if s0 < 0xC2 \<or> 0xF5 \<le> s0 then (RuneError, 1)
           else
             (let sz = (if s0 < 0xE0 then 2 else if s0 < 0xF0 then 3 else (4::nat));
                  lo = (if s0 = 0xE0 then 0xA0 else if s0 = 0xF0 then 0x90 else (0x80::nat));
                  hi = (if s0 = 0xED then 0x9F else if s0 = 0xF4 then 0x8F else (0xBF::nat))
              in if length s < sz then (RuneError, 1)
                 else
                   (let s1 = (of_char (s ! 1) :: nat) in
                    if s1 < lo \<or> hi < s1 then (RuneError, 1)
                    else if sz \<le> 2 then ((s0 mod 0x20) * 0x40 + s1 mod 0x40, 2)
                    else
                      (let s2 = (of_char (s ! 2) :: nat) in
                       if s2 < 0x80 \<or> 0xBF < s2 then (RuneError, 1)
                       else if sz \<le> 3
                         then ((s0 mod 0x10) * 0x1000 + (s1 mod 0x40) * 0x40 + s2 mod 0x40, 3)
                       else
                         (let s3 = (of_char (s ! 3) :: nat) in
                          if s3 < 0x80 \<or> 0xBF < s3 then (RuneError, 1)
                          else ((s0 mod 8) * 0x40000 + (s1 mod 0x40) * 0x1000
                                  + (s2 mod 0x40) * 0x40 + s3 mod 0x40, 4)))))))"

text \<open>\<^verbatim>\<open>utf8.RuneStart\<close>: the byte is not a continuation byte.\<close>

definition RuneStart :: "char \<Rightarrow> bool" where
  "RuneStart b = (\<not> (0x80 \<le> (of_char b :: nat) \<and> (of_char b :: nat) < 0xC0))"

text \<open>
  The loop of \<^verbatim>\<open>utf8.DecodeLastRuneInString\<close> that steps \<open>start\<close> back to a rune
  start, at most down to \<open>lim\<close>; the result is \<open>start + 1\<close> (0 when the index has
  gone below zero, 1 + \<open>start\<close> otherwise), so that it stays a natural number.
\<close>

fun lastRuneStart :: "string \<Rightarrow> nat \<Rightarrow> nat \<Rightarrow> nat" where
  "lastRuneStart s lim 0 = 0"
| "lastRuneStart s lim (Suc start) =
     (if Suc start \<le> lim then Suc start
      else if RuneStart (s ! start) then Suc start
      else lastRuneStart s lim start)"

definition DecodeLastRuneInString :: "string \<Rightarrow> nat \<times> nat" where
  "DecodeLastRuneInString s =
     (let end = length s in
      if end = 0 then (RuneError, 0)
      else
        (let r = (of_char (s ! (end - 1)) :: nat) in
         if r < 0x80 then (r, 1)
         else
           (let lim = end - 4;
                start = lastRuneStart s lim (end - 1) - 1;
                (r, wid) = DecodeRuneInString (drop start s)
            in if start + wid \<noteq> end then (RuneError, 1) else (r, wid))))"

text \<open>\<^verbatim>\<open>unicode.IsSpace\<close>: the Latin-1 spaces, and beyond Latin-1 the property White_Space.\<close>

definition IsSpace :: "nat \<Rightarrow> bool" where
  "IsSpace r =
     (if r \<le> 0xFF then r \<in> {0x09, 0x0A, 0x0B, 0x0C, 0x0D, 0x20, 0x85, 0xA0}
      else r = 0x1680 \<or> (0x2000 \<le> r \<and> r \<le> 0x200A) \<or> r = 0x2028 \<or> r = 0x2029
           \<or> r = 0x202F \<or> r = 0x205F \<or> r = 0x3000)"

lemma DecodeRuneInString_width:
  "s \<noteq> [] \<Longrightarrow> 0 < snd (DecodeRuneInString s) \<and> snd (DecodeRuneInString s) \<le> length s"
  by (cases s) (auto simp: DecodeRuneInString_def Let_def Suc_le_eq)

lemma lastRuneStart_le: "lastRuneStart s lim k \<le> k"
  by (induction k) simp_all

lemma DecodeLastRuneInString_width:
  assumes "s \<noteq> []"
  shows "0 < snd (DecodeLastRuneInString s) \<and> snd (DecodeLastRuneInString s) \<le> length s"
proof -
  let ?start = "lastRuneStart s (length s - 4) (length s - 1) - 1"
  obtain r wid where d: "DecodeRuneInString (drop ?start s) = (r, wid)"
    by (cases "DecodeRuneInString (drop ?start s)")
  have lt: "?start < length s"
    using assms lastRuneStart_le [of s "length s - 4" "length s - 1"]
    by (cases s) auto
  have "?start + wid = length s \<Longrightarrow> 0 < wid \<and> wid \<le> length s"
    using lt by arith
  moreover have "Suc 0 \<le> length s" using assms by (cases s) simp_all
  ultimately show ?thesis
    using d by (auto simp: DecodeLastRuneInString_def Let_def)
qed

lemma DecodeRuneInString_pos: "(r, n) = DecodeRuneInString s \<Longrightarrow> s \<noteq> [] \<Longrightarrow> 0 < n"
  using DecodeRuneInString_width [of s] by (metis snd_conv)

lemma DecodeLastRuneInString_pos: "(r, n) = DecodeLastRuneInString s \<Longrightarrow> s \<noteq> [] \<Longrightarrow> 0 < n"
  using DecodeLastRuneInString_width [of s] by (metis snd_conv)

subsection \<open>strings.TrimSpace and strings.HasPrefix\<close>

text \<open>
  \<^verbatim>\<open>strings.TrimLeftFunc\<close> (over \<^verbatim>\<open>indexFunc\<close>, whose \<^verbatim>\<open>range\<close> loop decodes one
  rune after the other): the string from its first rune that does not satisfy \<open>f\<close>.
\<close>

function TrimLeftFunc :: "string \<Rightarrow> (nat \<Rightarrow> bool) \<Rightarrow> string" where
  "TrimLeftFunc s f =
     (if s = [] then []
      else (case DecodeRuneInString s of
              (r, n) \<Rightarrow> if \<not> f r then s else TrimLeftFunc (drop n s) f))"
  by pat_completeness auto
termination
  by (relation "measure (\<lambda>(s, f). length s)")
     (auto dest: DecodeRuneInString_pos simp: diff_less)

declare TrimLeftFunc.simps [simp del]

text \<open>
  \<^verbatim>\<open>lastIndexFunc\<close>: the index of the last rune \<open>r\<close> with \<open>f r = truth\<close>, decoding
  backwards from the end; \<open>None\<close> is the index -1.
\<close>

function lastIndexFunc :: "string \<Rightarrow> (nat \<Rightarrow> bool) \<Rightarrow> bool \<Rightarrow> nat option" where
  "lastIndexFunc s f truth =
     (if s = [] then None
      else (case DecodeLastRuneInString s of
              (r, wid) \<Rightarrow>
                if f r = truth then Some (length s - wid)
                else lastIndexFunc (take (length s - wid) s) f truth))"
  by pat_completeness auto
termination
  by (relation "measure (\<lambda>(s, f, truth). length s)")
     (auto dest: DecodeLastRuneInString_pos simp: diff_less)

declare lastIndexFunc.simps [simp del]

definition TrimRightFunc :: "string \<Rightarrow> (nat \<Rightarrow> bool) \<Rightarrow> string" where
  "TrimRightFunc s f =
     (case lastIndexFunc s f False of
        None \<Rightarrow> take 0 s
      | Some i \<Rightarrow>
          if 0x80 \<le> (of_char (s ! i) :: nat)
          then take (i + snd (DecodeRuneInString (drop i s))) s
          else take (i + 1) s)"

definition TrimFunc :: "string \<Rightarrow> (nat \<Rightarrow> bool) \<Rightarrow> string" where
  "TrimFunc s f = TrimRightFunc (TrimLeftFunc s f) f"

text \<open>The table \<^verbatim>\<open>asciiSpace\<close> of package strings.\<close>

definition asciiSpace :: "char \<Rightarrow> bool" where
  "asciiSpace c = (c \<in> {CHR 0x09, CHR 0x0A, CHR 0x0B, CHR 0x0C, CHR 0x0D, CHR 0x20})"

text \<open>
  \<^verbatim>\<open>strings.TrimSpace\<close>. Its first loop moves \<open>start\<close> over the leading ASCII spaces
  and its second loop moves \<open>stop\<close> back over the trailing ones; either loop hands over
  to the rune-wise functions at the first byte that is not ASCII.
\<close>

fun TrimSpace_stop :: "string \<Rightarrow> nat \<Rightarrow> string" where
  "TrimSpace_stop s 0 = take 0 s"
| "TrimSpace_stop s (Suc k) =
     (if 0x80 \<le> (of_char (s ! k) :: nat) then TrimRightFunc (take (Suc k) s) IsSpace
      else if \<not> asciiSpace (s ! k) then take (Suc k) s
      else TrimSpace_stop s k)"

fun TrimSpace :: "string \<Rightarrow> string" where
  "TrimSpace [] = TrimSpace_stop [] 0"
| "TrimSpace (c # cs) =
     (if 0x80 \<le> (of_char c :: nat) then TrimFunc (c # cs) IsSpace
      else if \<not> asciiSpace c then TrimSpace_stop (c # cs) (length (c # cs))
      else TrimSpace cs)"

definition HasPrefix :: "string \<Rightarrow> string \<Rightarrow> bool" where
  "HasPrefix s pre = (length pre \<le> length s \<and> take (length pre) s = pre)"

subsection \<open>bufio.Scanner with the split function bufio.ScanLines\<close>

definition MaxScanTokenSize :: nat where
  "MaxScanTokenSize = 64 * 1024"

fun IndexByte :: "string \<Rightarrow> char \<Rightarrow> nat option" where
  "IndexByte [] c = None"
| "IndexByte (b # bs) c =
     (if b = c then Some 0 else (case IndexByte bs c of None \<Rightarrow> None | Some i \<Rightarrow> Some (Suc i)))"

definition dropCR :: "string \<Rightarrow> string" where
  "dropCR data = (if data \<noteq> [] \<and> last data = CHR 0x0D then butlast data else data)"

text \<open>
  One call of \<^verbatim>\<open>scanner.Scan()\<close> on the input not yet consumed: the token
  (\<^verbatim>\<open>scanner.Text()\<close>) and the input left, or \<open>None\<close> when \<^verbatim>\<open>Scan\<close> returns false. It
  returns false at the end of the input, and when the buffer, which grows to
  \<^verbatim>\<open>MaxScanTokenSize\<close> bytes and no further, is full and holds no newline
  (\<^verbatim>\<open>ErrTooLong\<close>): a line of \<^verbatim>\<open>MaxScanTokenSize\<close> bytes or more ends the scan.
  \<^verbatim>\<open>ScanLines\<close> returns the line without its newline and without one trailing
  carriage return, and a last line that has no newline as it is.
\<close>

definition Scan :: "string \<Rightarrow> (string \<times> string) option" where
  "Scan data =
     (if data = [] then None
      else (case IndexByte data (CHR 0x0A) of
              Some i \<Rightarrow>
                if MaxScanTokenSize \<le> i then None
                else Some (dropCR (take i data), drop (i + 1) data)
            | None \<Rightarrow>
                if MaxScanTokenSize \<le> length data then None
                else Some (dropCR data, [])))"

lemma Scan_shorter: "Scan data = Some (tok, rest) \<Longrightarrow> length rest < length data"
  by (auto simp: Scan_def split: if_splits option.splits)

subsection \<open>filepath.Match (Unix: the separator is the slash, the backslash escapes)\<close>

text \<open>
  \<^verbatim>\<open>scanChunk\<close>: after the leading stars, the loop over \<open>i\<close> that ends at the first
  star outside a character class; it returns the chunk \<^verbatim>\<open>pattern[0:i]\<close> and the rest
  \<^verbatim>\<open>pattern[i:]\<close>.
\<close>

fun scanChunk_scan :: "string \<Rightarrow> bool \<Rightarrow> string \<times> string" where
  "scanChunk_scan [] inrange = ([], [])"
| "scanChunk_scan [c] inrange =
     (if c = CHR ''*'' \<and> \<not> inrange then ([], [c]) else ([c], []))"
| "scanChunk_scan (c # d # cs) inrange =
     (if c = CHR 0x5C then
        (case scanChunk_scan cs inrange of (chunk, rest) \<Rightarrow> (c # d # chunk, rest))
      else if c = CHR ''['' then
        (case scanChunk_scan (d # cs) True of (chunk, rest) \<Rightarrow> (c # chunk, rest))
      else if c = CHR '']'' then
        (case scanChunk_scan (d # cs) False of (chunk, rest) \<Rightarrow> (c # chunk, rest))
      else if c = CHR ''*'' \<and> \<not> inrange then ([], c # d # cs)
      else (case scanChunk_scan (d # cs) inrange of (chunk, rest) \<Rightarrow> (c # chunk, rest)))"

definition scanChunk :: "string \<Rightarrow> bool \<times> string \<times> string" where
  "scanChunk pattern =
     (let star = (pattern \<noteq> [] \<and> hd pattern = CHR ''*'');
          pattern = dropWhile (\<lambda>c. c = CHR ''*'') pattern
      in (case scanChunk_scan pattern False of (chunk, rest) \<Rightarrow> (star, chunk, rest)))"

text \<open>
  \<^verbatim>\<open>getEsc\<close>: a possibly escaped character of a character class, the chunk after it,
  and the error. On its early returns the named results hold their zero values.
\<close>

definition getEsc :: "string \<Rightarrow> nat \<times> string \<times> error option" where
  "getEsc chunk =
     (if chunk = [] \<or> hd chunk = CHR ''-'' \<or> hd chunk = CHR '']'' then (0, [], Some ErrBadPattern)
      else if hd chunk = CHR 0x5C \<and> tl chunk = [] then (0, [], Some ErrBadPattern)
      else
        (let chunk = (if hd chunk = CHR 0x5C then tl chunk else chunk);
             r = fst (DecodeRuneInString chunk);
             n = snd (DecodeRuneInString chunk);
             err = (if r = RuneError \<and> n = 1 then Some ErrBadPattern else None);
             nchunk = drop n chunk;
             err = (if nchunk = [] then Some ErrBadPattern else err)
         in (r, nchunk, err)))"

lemma getEsc_shorter:
  "getEsc chunk = (r, nchunk, None) \<Longrightarrow> length nchunk < length chunk \<and> nchunk \<noteq> []"
  using DecodeRuneInString_width [of chunk] DecodeRuneInString_width [of "tl chunk"]
  by (auto simp: getEsc_def Let_def split: if_splits)

text \<open>
  The loop of \<^verbatim>\<open>matchChunk\<close> that parses the ranges of a character class: \<open>r\<close> is the
  rune of the name the class is matched against.
\<close>

function classLoop :: "string \<Rightarrow> nat \<Rightarrow> bool \<Rightarrow> nat \<Rightarrow> error + (string \<times> bool)" where
  "classLoop chunk r match nrange =
     (if chunk \<noteq> [] \<and> hd chunk = CHR '']'' \<and> 0 < nrange then Inr (tl chunk, match)
      else
        (case getEsc chunk of
           (lo, chunk1, Some err) \<Rightarrow> Inl err
         | (lo, chunk1, None) \<Rightarrow>
             if hd chunk1 = CHR ''-'' then
               (case getEsc (tl chunk1) of
                  (hi, chunk2, Some err) \<Rightarrow> Inl err
                | (hi, chunk2, None) \<Rightarrow>
                    classLoop chunk2 r (match \<or> (lo \<le> r \<and> r \<le> hi)) (nrange + 1))
             else classLoop chunk1 r (match \<or> (lo \<le> r \<and> r \<le> lo)) (nrange + 1)))"
  by pat_completeness auto
termination
  by (relation "measure (\<lambda>(chunk, r, match, nrange). length chunk)")
     (auto dest!: getEsc_shorter [OF sym])

declare classLoop.simps [simp del]

lemma classLoop_shorter:
  "classLoop chunk r match nrange = Inr (chunk', match') \<Longrightarrow> length chunk' < length chunk"
proof (induction chunk r match nrange rule: classLoop.induct)
  case (1 chunk r match nrange)
  show ?case
  proof (cases "chunk \<noteq> [] \<and> hd chunk = CHR '']'' \<and> 0 < nrange")
    case True
    have "classLoop chunk r match nrange = Inr (tl chunk, match)"
      using True by (subst classLoop.simps) simp
    then show ?thesis using "1.prems" True by (cases chunk) auto
  next
    case False
    obtain lo chunk1 e1 where g1: "getEsc chunk = (lo, chunk1, e1)" by (cases "getEsc chunk")
    show ?thesis
    proof (cases e1)
      case (Some err)
      then show ?thesis using "1.prems" False g1 by (simp add: classLoop.simps [of chunk])
    next
      case None
      note n1 = None
      have s1: "length chunk1 < length chunk" using getEsc_shorter g1 None by blast
      show ?thesis
      proof (cases "hd chunk1 = CHR ''-''")
        case True
        obtain hi chunk2 e2 where g2: "getEsc (tl chunk1) = (hi, chunk2, e2)"
          by (cases "getEsc (tl chunk1)")
        show ?thesis
        proof (cases e2)
          case (Some err)
          then show ?thesis using "1.prems" False g1 n1 True g2
            by (simp add: classLoop.simps [of chunk])
        next
          case None
          have s2: "length chunk2 < length (tl chunk1)" using getEsc_shorter g2 None by blast
          have "classLoop chunk2 r (match \<or> (lo \<le> r \<and> r \<le> hi)) (nrange + 1) = Inr (chunk', match')"
            using "1.prems" False g1 n1 True g2 None by (simp add: classLoop.simps [of chunk])
          then have "length chunk' < length chunk2"
            using "1.IH"(1) [OF False g1 [symmetric] refl n1 True g2 [symmetric] refl None] by simp
          then show ?thesis using s1 s2 by simp
        qed
      next
        case nodash: False
        have "classLoop chunk1 r (match \<or> (lo \<le> r \<and> r \<le> lo)) (nrange + 1) = Inr (chunk', match')"
          using "1.prems" False g1 n1 nodash by (simp add: classLoop.simps [of chunk])
        then have "length chunk' < length chunk1"
          using "1.IH"(2) [OF False g1 [symmetric] refl n1 nodash] by simp
        then show ?thesis using s1 by simp
      qed
    qed
  qed
qed

lemma classLoop_strip:
  assumes "classLoop (if chunk \<noteq> [] \<and> hd chunk = c then tl chunk else chunk) r m n = Inr (a, y)"
  shows "length a < Suc (length chunk)"
proof -
  have "length (if chunk \<noteq> [] \<and> hd chunk = c then tl chunk else chunk) \<le> length chunk"
    by simp
  then show ?thesis using classLoop_shorter [OF assms] by linarith
qed

text \<open>
  The loop of \<^verbatim>\<open>matchChunk\<close> over the chunk, a sequence of literals, character
  classes and question marks. After the match has failed the loop goes on through the
  chunk, checking that it is well formed but no longer reading \<open>s\<close>. The result is
  Go's triple: the rest of \<open>s\<close>, whether the chunk matched, and the error.
\<close>

function matchChunk_loop :: "string \<Rightarrow> string \<Rightarrow> bool \<Rightarrow> string \<times> bool \<times> error option" where
  "matchChunk_loop [] s failed = (if failed then ([], False, None) else (s, True, None))"
| "matchChunk_loop (c # chunk) s failed0 =
     (let failed = (failed0 \<or> s = []) in
      if c = CHR ''['' then
        (let r = (if failed then 0 else fst (DecodeRuneInString s));
             s1 = (if failed then s else drop (snd (DecodeRuneInString s)) s);
             negated = (chunk \<noteq> [] \<and> hd chunk = CHR ''^'');
             chunk1 = (if negated then tl chunk else chunk)
         in (case classLoop chunk1 r False 0 of
               Inl err \<Rightarrow> ([], False, Some err)
             | Inr (chunk2, match) \<Rightarrow> matchChunk_loop chunk2 s1 (failed \<or> match = negated)))
      else if c = CHR ''?'' then
        (if failed then matchChunk_loop chunk s failed
         else matchChunk_loop chunk (drop (snd (DecodeRuneInString s)) s) (hd s = CHR ''/''))
      else if c = CHR 0x5C then
        (case chunk of
           [] \<Rightarrow> ([], False, Some ErrBadPattern)
         | e # chunk' \<Rightarrow>
             if failed then matchChunk_loop chunk' s failed
             else matchChunk_loop chunk' (tl s) (e \<noteq> hd s))
      else
        (if failed then matchChunk_loop chunk s failed
         else matchChunk_loop chunk (tl s) (c \<noteq> hd s)))"
  by pat_completeness auto
termination
  apply (relation "measure (\<lambda>(chunk, s, failed). length chunk)")
  apply simp_all
  apply clarify
  apply (erule classLoop_strip)
  done

declare matchChunk_loop.simps [simp del]

definition matchChunk :: "string \<Rightarrow> string \<Rightarrow> string \<times> bool \<times> error option" where
  "matchChunk chunk s = matchChunk_loop chunk s False"

text \<open>
  The inner loop of \<^verbatim>\<open>Match\<close> for a chunk that follows a star: it tries the chunk
  after skipping \<open>i + 1\<close> bytes of the name, for \<open>i\<close> from 0 up to the first
  separator. \<open>lastChunk\<close> says that the pattern left is empty. The loop either
  continues the outer loop with a new name, falls through, or returns an error.
\<close>

datatype star_result = StarMatched string | StarFailed | StarError error

fun starLoop :: "string \<Rightarrow> bool \<Rightarrow> string \<Rightarrow> star_result" where
  "starLoop chunk lastChunk [] = StarFailed"
| "starLoop chunk lastChunk (c # cs) =
     (if c = CHR ''/'' then StarFailed
      else
        (case matchChunk chunk cs of
           (t, ok, err) \<Rightarrow>
             if ok then (if lastChunk \<and> t \<noteq> [] then starLoop chunk lastChunk cs else StarMatched t)
             else (case err of
                     Some e \<Rightarrow> StarError e
                   | None \<Rightarrow> starLoop chunk lastChunk cs)))"

lemma scanChunk_scan_shorter:
  "scanChunk_scan p inrange = (chunk, rest) \<Longrightarrow> length rest \<le> length p"
  by (induction p inrange arbitrary: chunk rest rule: scanChunk_scan.induct)
     (auto split: if_splits prod.splits)

lemma scanChunk_scan_progress:
  "scanChunk_scan p inrange = (chunk, rest) \<Longrightarrow> p \<noteq> [] \<Longrightarrow> hd p \<noteq> CHR ''*''
     \<Longrightarrow> length rest < length p"
  by (cases "(p, inrange)" rule: scanChunk_scan.cases)
     (auto split: if_splits prod.splits dest: scanChunk_scan_shorter)

lemma scanChunk_shorter:
  assumes "scanChunk pattern = (star, chunk, rest)" and "pattern \<noteq> []"
  shows "length rest < length pattern"
proof -
  let ?p = "dropWhile (\<lambda>c. c = CHR ''*'') pattern"
  have sc: "scanChunk_scan ?p False = (chunk, rest)"
    using assms(1) by (auto simp: scanChunk_def Let_def split: prod.splits)
  have le: "length ?p \<le> length pattern" by (rule length_dropWhile_le)
  show ?thesis
  proof (cases "hd pattern = CHR ''*''")
    case True
    then have "length ?p < length pattern" using assms(2) by (cases pattern) (auto simp: le_imp_less_Suc length_dropWhile_le)
    then show ?thesis using scanChunk_scan_shorter [OF sc] by simp
  next
    case False
    then have eq: "?p = pattern" using assms(2) by (cases pattern) auto
    show ?thesis using scanChunk_scan_progress [of pattern False chunk rest] sc eq False assms(2) by simp
  qed
qed

text \<open>
  Before it returns false with no error, \<^verbatim>\<open>Match\<close> checks that the rest of the
  pattern is well formed.
\<close>

function checkRest :: "string \<Rightarrow> error option" where
  "checkRest pattern =
     (if pattern = [] then None
      else
        (case scanChunk pattern of
           (star, chunk, rest) \<Rightarrow>
             (case matchChunk chunk [] of
                (t, ok, Some e) \<Rightarrow> Some e
              | (t, ok, None) \<Rightarrow> checkRest rest)))"
  by pat_completeness auto
termination
  by (relation "measure length") (auto dest: scanChunk_shorter [OF sym])

declare checkRest.simps [simp del]

text \<open>\<^verbatim>\<open>filepath.Match(pattern, name)\<close>: \<^verbatim>\<open>(matched, err)\<close>.\<close>

function Match :: "string \<Rightarrow> string \<Rightarrow> bool \<times> error option" where
  "Match pattern name =
     (if pattern = [] then (name = [], None)
      else
        (case scanChunk pattern of
           (star, chunk, rest) \<Rightarrow>
             if star \<and> chunk = [] then (CHR ''/'' \<notin> set name, None)
             else
               (case matchChunk chunk name of
                  (t, ok, err) \<Rightarrow>
                    if ok \<and> (t = [] \<or> rest \<noteq> []) then Match rest t
                    else
                      (case err of
                         Some e \<Rightarrow> (False, Some e)
                       | None \<Rightarrow>
                           (case (if star then starLoop chunk (rest = []) name else StarFailed) of
                              StarMatched t' \<Rightarrow> Match rest t'
                            | StarError e \<Rightarrow> (False, Some e)
                            | StarFailed \<Rightarrow>
                                (case checkRest rest of
                                   Some e \<Rightarrow> (False, Some e)
                                 | None \<Rightarrow> (False, None)))))))"
  by pat_completeness auto
termination
  by (relation "measure (\<lambda>(pattern, name). length pattern)") (auto dest: scanChunk_shorter [OF sym])

declare Match.simps [simp del]

subsection \<open>filepath.Ext, filepath.Clean, filepath.Join and the base name of os.Lstat\<close>

text \<open>
  The loop of \<^verbatim>\<open>filepath.Ext\<close>: \<open>i\<close> runs from the last byte down while the byte is
  not a separator, and the first dot it meets starts the extension. The second
  argument is \<open>i + 1\<close>.
\<close>

fun Ext_loop :: "string \<Rightarrow> nat \<Rightarrow> string" where
  "Ext_loop path 0 = []"
| "Ext_loop path (Suc i) =
     (if path ! i = CHR ''/'' then []
      else if path ! i = CHR ''.'' then drop i path
      else Ext_loop path i)"

definition Ext :: "string \<Rightarrow> string" where
  "Ext path = Ext_loop path (length path)"

text \<open>
  The name \<^verbatim>\<open>os.Lstat\<close> gives the root's entry (\<^verbatim>\<open>basename\<close> of package os): the
  path without its trailing slashes and without the leading directories. The two
  loops run from the end of the name, so they are written over the reversed name.
\<close>

fun dropTrailingSlashes :: "string \<Rightarrow> string" where
  "dropTrailingSlashes (c # d # cs) =
     (if c = CHR ''/'' then dropTrailingSlashes (d # cs) else c # d # cs)"
| "dropTrailingSlashes cs = cs"

definition basename :: "string \<Rightarrow> string" where
  "basename name =
     (case dropTrailingSlashes (rev name) of
        [] \<Rightarrow> []
      | c # cs \<Rightarrow> rev (c # takeWhile (\<lambda>x. x \<noteq> CHR ''/'') cs))"

text \<open>
  \<^verbatim>\<open>filepath.Clean\<close>. \<open>out\<close> is the buffer written so far (\<^verbatim>\<open>out.w\<close> is its length)
  and \<open>dotdot\<close> is the index where a \<^verbatim>\<open>..\<close> element must stop backtracking.
\<close>

fun backtrack :: "string \<Rightarrow> nat \<Rightarrow> nat \<Rightarrow> nat" where
  "backtrack out dotdot 0 = 0"
| "backtrack out dotdot (Suc w) =
     (if dotdot < Suc w \<and> out ! (Suc w) \<noteq> CHR ''/'' then backtrack out dotdot w else Suc w)"

function Clean_loop :: "string \<Rightarrow> bool \<Rightarrow> string \<Rightarrow> nat \<Rightarrow> string" where
  "Clean_loop [] rooted out dotdot = out"
| "Clean_loop (c # cs) rooted out dotdot =
     (if c = CHR ''/'' then Clean_loop cs rooted out dotdot
      else if c = CHR ''.'' \<and> (cs = [] \<or> hd cs = CHR ''/'') then Clean_loop cs rooted out dotdot
      else if c = CHR ''.'' \<and> hd cs = CHR ''.'' \<and> (tl cs = [] \<or> hd (tl cs) = CHR ''/'') then
        (if dotdot < length out then
           Clean_loop (tl cs) rooted (take (backtrack out dotdot (length out - 1)) out) dotdot
         else if \<not> rooted then
           (let out = (if 0 < length out then out @ ''/'' else out) @ ''..''
            in Clean_loop (tl cs) rooted out (length out))
         else Clean_loop (tl cs) rooted out dotdot)
      else
        (let out = (if rooted \<and> length out \<noteq> 1 \<or> \<not> rooted \<and> length out \<noteq> 0
                    then out @ ''/'' else out)
         in Clean_loop (dropWhile (\<lambda>x. x \<noteq> CHR ''/'') (c # cs)) rooted
              (out @ takeWhile (\<lambda>x. x \<noteq> CHR ''/'') (c # cs)) dotdot))"
  by pat_completeness auto
termination
  apply (relation "measure (\<lambda>(path, rooted, out, dotdot). length path)")
  apply (auto simp: less_Suc_eq_le length_dropWhile_le)
  done

definition Clean :: "string \<Rightarrow> string" where
  "Clean path =
     (if path = [] then ''.''
      else
        (let rooted = (hd path = CHR ''/'');
             out = (if rooted then Clean_loop (tl path) rooted ''/'' 1
                    else Clean_loop path rooted [] 0)
         in if out = [] then ''.'' else out))"

definition Join :: "string \<Rightarrow> string \<Rightarrow> string" where
  "Join a b =
     (if a \<noteq> [] then Clean (a @ ''/'' @ b)
      else if b \<noteq> [] then Clean b
      else [])"

section \<open>filepath.WalkDir\<close>

text \<open>
  An \<^verbatim>\<open>fs.DirEntry\<close>, as far as the program reads it. The callback of a walk
  (\<^verbatim>\<open>fs.WalkDirFunc\<close>) gets the path, the entry (\<^verbatim>\<open>nil\<close> when \<^verbatim>\<open>os.Lstat\<close> of the
  root failed) and an error, and returns an error; what it does besides is a change
  of a state \<open>'st\<close> that is passed through the walk.
\<close>

record DirEntry =
  Name :: string
  IsDir :: bool

type_synonym 'st WalkDirFunc =
  "string \<Rightarrow> DirEntry option \<Rightarrow> error option \<Rightarrow> 'st \<Rightarrow> error option \<times> 'st"

fun dirEntry :: "string \<Rightarrow> fsnode \<Rightarrow> DirEntry" where
  "dirEntry name File = \<lparr>Name = name, IsDir = False\<rparr>"
| "dirEntry name (Dir ents rderr) = \<lparr>Name = name, IsDir = True\<rparr>"

text \<open>
  \<^verbatim>\<open>walkDir\<close> of path/filepath, and its loop over the entries of a directory
  (\<open>walkDir_entries\<close>). The callback is first called for the entry itself; for a
  directory, \<^verbatim>\<open>os.ReadDir\<close> follows, and the callback is called a second time when
  that fails. \<^verbatim>\<open>SkipDir\<close> from the callback of a directory skips the directory; from
  an entry of the loop it ends the loop.
\<close>

fun walkDir :: "string \<Rightarrow> string \<Rightarrow> fsnode \<Rightarrow> 'st WalkDirFunc \<Rightarrow> 'st \<Rightarrow> error option \<times> 'st"
  and walkDir_entries ::
    "string \<Rightarrow> (string \<times> fsnode) list \<Rightarrow> 'st WalkDirFunc \<Rightarrow> 'st \<Rightarrow> error option \<times> 'st"
where
  "walkDir path name File walkDirFn st = walkDirFn path (Some (dirEntry name File)) None st"
| "walkDir path name (Dir ents rderr) walkDirFn st =
     (case walkDirFn path (Some (dirEntry name (Dir ents rderr))) None st of
        (Some err, st1) \<Rightarrow> (if err = SkipDir then (None, st1) else (Some err, st1))
      | (None, st1) \<Rightarrow>
          (case (case rderr of
                   None \<Rightarrow> (None, st1)
                 | Some (op, errno) \<Rightarrow>
                     walkDirFn path (Some (dirEntry name (Dir ents rderr)))
                       (Some (PathError op path errno)) st1) of
             (Some err, st2) \<Rightarrow> (if err = SkipDir then (None, st2) else (Some err, st2))
           | (None, st2) \<Rightarrow> walkDir_entries path ents walkDirFn st2))"
| "walkDir_entries path [] walkDirFn st = (None, st)"
| "walkDir_entries path ((name1, d1) # dirs) walkDirFn st =
     (case walkDir (Join path name1) name1 d1 walkDirFn st of
        (Some err, st1) \<Rightarrow> (if err = SkipDir then (None, st1) else (Some err, st1))
      | (None, st1) \<Rightarrow> walkDir_entries path dirs walkDirFn st1)"

definition WalkDir :: "os \<Rightarrow> string \<Rightarrow> 'st WalkDirFunc \<Rightarrow> 'st \<Rightarrow> error option \<times> 'st" where
  "WalkDir sys root fn st =
     (case (case Lstat sys root of
              Inl errno \<Rightarrow> fn root None (Some (PathError ''lstat'' root errno)) st
            | Inr info \<Rightarrow> walkDir root (basename root) info fn st) of
        (Some err, st1) \<Rightarrow> (if err = SkipDir \<or> err = SkipAll then (None, st1) else (Some err, st1))
      | (None, st1) \<Rightarrow> (None, st1))"

section \<open>NewScanner\<close>

text \<open>
  The loop \<^verbatim>\<open>for scanner.Scan() { ... }\<close> of \<^verbatim>\<open>NewScanner\<close>: \<open>data\<close> is the input the
  scanner has not consumed and \<open>pats\<close> is \<^verbatim>\<open>s.Patterns\<close>.
\<close>

function readPatterns :: "string \<Rightarrow> string list \<Rightarrow> string list" where
  "readPatterns data pats =
     (case Scan data of
        None \<Rightarrow> pats
      | Some (text, rest) \<Rightarrow>
          (let line = TrimSpace text in
           if line \<noteq> [] \<and> \<not> HasPrefix line ''#''
           then readPatterns rest (pats @ [line])
           else readPatterns rest pats))"
  by pat_completeness auto
termination
  by (relation "measure (\<lambda>(data, pats). length data)") (auto dest: Scan_shorter)

declare readPatterns.simps [simp del]

definition NewScanner :: "string \<Rightarrow> string \<Rightarrow> string list \<Rightarrow> os \<Rightarrow> FileScanner \<times> error option" where
  "NewScanner root ignoreFile extensions sys =
     (let s = \<lparr>Root = root,
                IgnoredNames = [''.git'' \<mapsto> True, ''node_modules'' \<mapsto> True],
                Patterns = [],
                AllowedExts = Map.empty\<rparr>;
          s = fold (\<lambda>ext s. s\<lparr>AllowedExts := (AllowedExts s)(ext \<mapsto> True)\<rparr>) extensions s;
          s = (case Open sys ignoreFile of
                 Inl err \<Rightarrow> s
               | Inr data \<Rightarrow> s\<lparr>Patterns := readPatterns data (Patterns s)\<rparr>)
      in (s, None))"

section \<open>ScanForAI\<close>

text \<open>
  The loop over \<^verbatim>\<open>s.Patterns\<close> in the callback: it ends the callback at the first
  pattern \<^verbatim>\<open>filepath.Match\<close> reports as matched, and drops the error of each call.
\<close>

fun patternLoop :: "string list \<Rightarrow> string \<Rightarrow> bool" where
  "patternLoop [] name = False"
| "patternLoop (p # ps) name =
     (case Match p name of (matched, err) \<Rightarrow> if matched then True else patternLoop ps name)"

text \<open>
  The callback \<^verbatim>\<open>ScanForAI\<close> gives to \<^verbatim>\<open>filepath.WalkDir\<close>. Its effect is the send
  \<^verbatim>\<open>pathsChan <- path\<close>: the state of the walk is the sequence of paths sent so far.
  Where the entry is \<^verbatim>\<open>nil\<close> and the error too, the method call \<^verbatim>\<open>d.IsDir()\<close>
  panics; \<^verbatim>\<open>WalkDir\<close> never makes such a call.
\<close>

definition walkFn :: "FileScanner \<Rightarrow> string list WalkDirFunc" where
  "walkFn s path d err sent =
     (case err of
        Some e \<Rightarrow> (Some e, sent)
      | None \<Rightarrow>
          (case d of
             None \<Rightarrow> (Some NilDereference, sent)
           | Some d \<Rightarrow>
               if IsDir d then
                 (if index_bool (IgnoredNames s) (Name d) then (Some SkipDir, sent)
                  else (None, sent))
               else if \<not> index_bool (AllowedExts s) (Ext path) then (None, sent)
               else if patternLoop (Patterns s) (Name d) then (None, sent)
               else (None, sent @ [path])))"

text \<open>
  The loop of one worker, \<^verbatim>\<open>for path := range pathsChan\<close>, over the paths it
  receives: a failed read goes on to the next path, a successful one calls the
  callback. What the callback does is a change of the caller's state \<open>'a\<close>.
\<close>

fun worker :: "(FileContent \<Rightarrow> 'a \<Rightarrow> 'a) \<Rightarrow> os \<Rightarrow> string list \<Rightarrow> 'a \<Rightarrow> 'a" where
  "worker callback sys [] st = st"
| "worker callback sys (path # paths) st =
     (case ReadFile sys path of
        Inl err \<Rightarrow> worker callback sys paths st
      | Inr bytes \<Rightarrow> worker callback sys paths (callback \<lparr>Path = path, Content = bytes\<rparr> st))"

text \<open>
  \<^verbatim>\<open>ScanForAI\<close>. The walk runs in the calling goroutine and does not depend on the
  workers, but for the send, which blocks while the channel holds 100 paths. With no
  worker (\<open>workerCount \<le> 0\<close>) nothing is received: the call returns when the walk
  sends at most 100 paths, with no call of the callback, and never returns otherwise
  (\<open>None\<close>). With one worker the paths are read, and the callback is called, in the
  order they were sent. With more workers the same paths are received, each by one
  worker, and the order of the calls of the callback is the scheduler's: the result
  below is the one of the schedule that keeps the order of the channel.
\<close>

definition ScanForAI ::
  "FileScanner \<Rightarrow> int \<Rightarrow> (FileContent \<Rightarrow> 'a \<Rightarrow> 'a) \<Rightarrow> os \<Rightarrow> 'a \<Rightarrow> (error option \<times> 'a) option" where
  "ScanForAI s workerCount callback sys st =
     (case WalkDir sys (Root s) (walkFn s) [] of
        (err, paths) \<Rightarrow>
          if workerCount \<le> 0 then (if 100 < length paths then None else Some (err, st))
          else Some (err, worker callback sys paths st))"

section \<open>The walk of ScanForAI\<close>

text \<open>
  Every non-directory entry of a tree, in the order of the walk, as the path
  \<^verbatim>\<open>WalkDir\<close> forms for it, its base name, and the names of the directories above
  it, from the root of the walk down.
\<close>

fun tree_files :: "string \<Rightarrow> string \<Rightarrow> string list \<Rightarrow> fsnode \<Rightarrow> (string \<times> string \<times> string list) list"
  and tree_files_entries ::
    "string \<Rightarrow> string list \<Rightarrow> (string \<times> fsnode) list \<Rightarrow> (string \<times> string \<times> string list) list"
where
  "tree_files path name ancestors File = [(path, name, ancestors)]"
| "tree_files path name ancestors (Dir ents rderr) = tree_files_entries path (ancestors @ [name]) ents"
| "tree_files_entries path ancestors [] = []"
| "tree_files_entries path ancestors ((name1, d1) # dirs) =
     tree_files (Join path name1) name1 ancestors d1 @ tree_files_entries path ancestors dirs"

text \<open>
  The three conditions of the specification on a file: its extension is allowed, no
  pattern matches its base name, and no directory above it has an ignored name.
\<close>

definition eligible :: "FileScanner \<Rightarrow> string \<times> string \<times> string list \<Rightarrow> bool" where
  "eligible s f =
     (case f of (path, name, ancestors) \<Rightarrow>
        index_bool (AllowedExts s) (Ext path)
        \<and> (\<forall>p \<in> set (Patterns s). \<not> fst (Match p name))
        \<and> (\<forall>a \<in> set ancestors. \<not> index_bool (IgnoredNames s) a))"

text \<open>
  The errors of \<^verbatim>\<open>os.ReadDir\<close> in a tree, in the order of the walk, for the
  directories that are neither ignored nor below an ignored one.
\<close>

fun tree_errors :: "FileScanner \<Rightarrow> string \<Rightarrow> string \<Rightarrow> fsnode \<Rightarrow> error list"
  and tree_errors_entries :: "FileScanner \<Rightarrow> string \<Rightarrow> (string \<times> fsnode) list \<Rightarrow> error list"
where
  "tree_errors s path name File = []"
| "tree_errors s path name (Dir ents rderr) =
     (if index_bool (IgnoredNames s) name then []
      else (case rderr of None \<Rightarrow> [] | Some (op, errno) \<Rightarrow> [PathError op path errno])
           @ tree_errors_entries s path ents)"
| "tree_errors_entries s path [] = []"
| "tree_errors_entries s path ((name1, d1) # dirs) =
     tree_errors s (Join path name1) name1 d1 @ tree_errors_entries s path dirs"

definition first_error :: "error list \<Rightarrow> error option" where
  "first_error errs = (case errs of [] \<Rightarrow> None | e # _ \<Rightarrow> Some e)"

lemma patternLoop_iff: "patternLoop ps name \<longleftrightarrow> (\<exists>p \<in> set ps. fst (Match p name))"
  by (induction ps) (auto split: prod.splits)

lemma walkFn_err [simp]: "walkFn s path d (Some e) sent = (Some e, sent)"
  by (simp add: walkFn_def)

lemma walkFn_dir [simp]:
  "walkFn s path (Some \<lparr>Name = name, IsDir = True\<rparr>) None sent
     = (if index_bool (IgnoredNames s) name then Some SkipDir else None, sent)"
  by (simp add: walkFn_def)

lemma walkFn_file [simp]:
  "walkFn s path (Some \<lparr>Name = name, IsDir = False\<rparr>) None sent
     = (None, if index_bool (AllowedExts s) (Ext path) \<and> (\<forall>p \<in> set (Patterns s). \<not> fst (Match p name))
              then sent @ [path] else sent)"
  by (simp add: walkFn_def patternLoop_iff)

lemma tree_files_ancestors:
  "f \<in> set (tree_files path name ancs node) \<Longrightarrow> set ancs \<subseteq> set (snd (snd f))"
  "f \<in> set (tree_files_entries path ancs ents) \<Longrightarrow> set ancs \<subseteq> set (snd (snd f))"
  by (induction path name ancs node and path ancs ents arbitrary: f and f
      rule: tree_files_tree_files_entries.induct) fastforce+

lemma tree_errors_not_SkipDir:
  "SkipDir \<notin> set (tree_errors s path name node)"
  "SkipDir \<notin> set (tree_errors_entries s path ents)"
  by (induction s path name node and s path ents rule: tree_errors_tree_errors_entries.induct)
     (auto split: option.splits)

definition walk_spec ::
  "FileScanner \<Rightarrow> error list \<Rightarrow> (string \<times> string \<times> string list) list \<Rightarrow> string list
     \<Rightarrow> error option \<times> string list \<Rightarrow> bool" where
  "walk_spec s errs files sent res =
     (\<exists>xs. res = (first_error errs, sent @ xs)
        \<and> prefix xs (map fst (filter (eligible s) files))
        \<and> (errs = [] \<longrightarrow> xs = map fst (filter (eligible s) files)))"

lemma walkDir_walkFn:
  "(\<forall>a \<in> set ancs. \<not> index_bool (IgnoredNames s) a) \<Longrightarrow>
     walk_spec s (tree_errors s path name node) (tree_files path name ancs node) sent
       (walkDir path name node (walkFn s) sent)"
  "(\<forall>a \<in> set ancs. \<not> index_bool (IgnoredNames s) a) \<Longrightarrow>
     walk_spec s (tree_errors_entries s path ents) (tree_files_entries path ancs ents) sent
       (walkDir_entries path ents (walkFn s) sent)"
proof (induction path name ancs node and path ancs ents arbitrary: sent and sent
       rule: tree_files_tree_files_entries.induct)
  case (1 path name ancestors)
  then show ?case
    by (auto simp: walk_spec_def first_error_def eligible_def)
next
  case (2 path name ancestors ents rderr)
  show ?case
  proof (cases "index_bool (IgnoredNames s) name")
    case True
    have "filter (eligible s) (tree_files_entries path (ancestors @ [name]) ents) = []"
      using True tree_files_ancestors(2) [of _ path "ancestors @ [name]" ents]
      by (force simp: filter_empty_conv eligible_def)
    then show ?thesis using True
      by (simp add: walk_spec_def first_error_def)
  next
    case False
    have anc: "\<forall>a \<in> set (ancestors @ [name]). \<not> index_bool (IgnoredNames s) a"
      using False "2.prems" by simp
    show ?thesis
    proof (cases rderr)
      case None
      then show ?thesis using False "2.IH" [OF anc, of sent]
        by (simp add: walk_spec_def)
    next
      case (Some e)
      then show ?thesis using False
        by (cases e) (simp add: walk_spec_def first_error_def)
    qed
  qed
next
  case (3 path ancestors)
  then show ?case by (simp add: walk_spec_def first_error_def)
next
  case (4 path ancestors name1 d1 dirs)
  let ?e1 = "tree_errors s (Join path name1) name1 d1"
  let ?f1 = "map fst (filter (eligible s) (tree_files (Join path name1) name1 ancestors d1))"
  let ?e2 = "tree_errors_entries s path dirs"
  let ?f2 = "map fst (filter (eligible s) (tree_files_entries path ancestors dirs))"
  from "4.IH"(1) [OF "4.prems", of sent]
  obtain xs where w1: "walkDir (Join path name1) name1 d1 (walkFn s) sent = (first_error ?e1, sent @ xs)"
    and p1: "prefix xs ?f1" and c1: "?e1 = [] \<longrightarrow> xs = ?f1"
    by (auto simp: walk_spec_def)
  show ?case
  proof (cases ?e1)
    case Nil
    from "4.IH"(2) [OF "4.prems", of "sent @ xs"]
    obtain ys where w2: "walkDir_entries path dirs (walkFn s) (sent @ xs) = (first_error ?e2, sent @ xs @ ys)"
      and p2: "prefix ys ?f2" and c2: "?e2 = [] \<longrightarrow> ys = ?f2"
      by (auto simp: walk_spec_def)
    show ?thesis using Nil w1 w2 p2 c1 c2
      by (auto simp: walk_spec_def first_error_def)
  next
    case (Cons e es)
    then have "e \<noteq> SkipDir" using tree_errors_not_SkipDir(1) [of s "Join path name1" name1 d1] by auto
    then show ?thesis using Cons w1 p1
      by (auto simp: walk_spec_def first_error_def prefix_def)
  qed
qed


text \<open>The same for a whole scan, which starts with \<^verbatim>\<open>os.Lstat\<close> of the root.\<close>

definition scan_files :: "FileScanner \<Rightarrow> os \<Rightarrow> (string \<times> string \<times> string list) list" where
  "scan_files s sys =
     (case Lstat sys (Root s) of
        Inl errno \<Rightarrow> []
      | Inr tree \<Rightarrow> tree_files (Root s) (basename (Root s)) [] tree)"

definition scan_errors :: "FileScanner \<Rightarrow> os \<Rightarrow> error list" where
  "scan_errors s sys =
     (case Lstat sys (Root s) of
        Inl errno \<Rightarrow> [PathError ''lstat'' (Root s) errno]
      | Inr tree \<Rightarrow> tree_errors s (Root s) (basename (Root s)) tree)"

text \<open>The paths the walk of a scan sends to the workers, in order.\<close>

definition dispatched :: "FileScanner \<Rightarrow> os \<Rightarrow> string list" where
  "dispatched s sys = snd (WalkDir sys (Root s) (walkFn s) [])"

text \<open>The calls of the callback a received path leads to: one if the file can be read, none otherwise.\<close>

definition sink_calls :: "os \<Rightarrow> string \<Rightarrow> FileContent list" where
  "sink_calls sys path =
     (case ReadFile sys path of
        Inl err \<Rightarrow> []
      | Inr bytes \<Rightarrow> [\<lparr>Path = path, Content = bytes\<rparr>])"

lemma first_error_not_Skip:
  "SkipDir \<notin> set errs \<Longrightarrow> first_error errs \<noteq> Some SkipDir"
  by (cases errs) (auto simp: first_error_def)

lemma tree_errors_not_SkipAll:
  "SkipAll \<notin> set (tree_errors s path name node)"
  "SkipAll \<notin> set (tree_errors_entries s path ents)"
  by (induction s path name node and s path ents rule: tree_errors_tree_errors_entries.induct)
     (auto split: option.splits)

lemma first_error_cases:
  "first_error errs = None \<and> errs = [] \<or> (\<exists>e \<in> set errs. first_error errs = Some e)"
  by (cases errs) (auto simp: first_error_def)

lemma WalkDir_walkFn:
  "walk_spec s (scan_errors s sys) (scan_files s sys) [] (WalkDir sys (Root s) (walkFn s) [])"
proof (cases "Lstat sys (Root s)")
  case (Inl errno)
  then show ?thesis
    by (simp add: WalkDir_def scan_errors_def scan_files_def walk_spec_def first_error_def)
next
  case (Inr tree)
  let ?errs = "tree_errors s (Root s) (basename (Root s)) tree"
  have "walk_spec s ?errs (tree_files (Root s) (basename (Root s)) [] tree) []
          (walkDir (Root s) (basename (Root s)) tree (walkFn s) [])"
    by (rule walkDir_walkFn(1)) simp
  then obtain xs where w: "walkDir (Root s) (basename (Root s)) tree (walkFn s) [] = (first_error ?errs, xs)"
    and p: "prefix xs (map fst (filter (eligible s) (tree_files (Root s) (basename (Root s)) [] tree)))"
    and c: "?errs = [] \<longrightarrow> xs = map fst (filter (eligible s) (tree_files (Root s) (basename (Root s)) [] tree))"
    by (auto simp: walk_spec_def)
  have "first_error ?errs = None \<or> (\<exists>e. first_error ?errs = Some e \<and> e \<noteq> SkipDir \<and> e \<noteq> SkipAll)"
    using first_error_cases [of ?errs] tree_errors_not_SkipDir(1) [of s "Root s" "basename (Root s)" tree]
      tree_errors_not_SkipAll(1) [of s "Root s" "basename (Root s)" tree]
    by auto
  then have "WalkDir sys (Root s) (walkFn s) [] = (first_error ?errs, xs)"
    using Inr w by (auto simp: WalkDir_def)
  then show ?thesis using Inr p c
    by (simp add: walk_spec_def scan_errors_def scan_files_def)
qed

lemma worker_fold:
  "worker callback sys paths st = fold callback (concat (map (sink_calls sys) paths)) st"
  by (induction paths arbitrary: st) (auto simp: sink_calls_def split: sum.splits)

lemma ScanForAI_workers:
  "1 \<le> workerCount \<Longrightarrow>
     ScanForAI s workerCount callback sys st =
       Some (fst (WalkDir sys (Root s) (walkFn s) []),
             fold callback (concat (map (sink_calls sys) (dispatched s sys))) st)"
  by (simp add: ScanForAI_def dispatched_def worker_fold split: prod.splits)

lemma scan_characterisation:
  assumes "1 \<le> workerCount"
  shows "\<exists>xs. ScanForAI s workerCount callback sys st =
            Some (first_error (scan_errors s sys), fold callback (concat (map (sink_calls sys) xs)) st)
          \<and> prefix xs (map fst (filter (eligible s) (scan_files s sys)))
          \<and> (scan_errors s sys = [] \<longrightarrow> xs = map fst (filter (eligible s) (scan_files s sys)))"
  using WalkDir_walkFn [of s sys] ScanForAI_workers [OF assms, of s callback sys st]
  by (auto simp: walk_spec_def dispatched_def)

section \<open>An example: the tree of the specification\<close>

text \<open>
  The tree \<^verbatim>\<open>{a.go, b.txt, sub/.git/c.go, sub/d.go}\<close>, found at the root \<^verbatim>\<open>.\<close>, with
  every file readable and no ignore-file.
\<close>

definition example_tree :: fsnode where
  "example_tree =
     Dir [(''a.go'', File), (''b.txt'', File),
          (''sub'', Dir [(''.git'', Dir [(''c.go'', File)] None), (''d.go'', File)] None)] None"

definition example_os :: os where
  "example_os =
     \<lparr>Lstat = (\<lambda>p. if p = ''.'' then Inr example_tree else Inl 2),
      ReadFile = (\<lambda>p. Inr (''package '' @ p)),
      Open = (\<lambda>p. Inl 2)\<rparr>"

section \<open>Properties of NewScanner\<close>

lemma fold_AllowedExts_frame:
  "IgnoredNames (fold (\<lambda>ext s. s\<lparr>AllowedExts := (AllowedExts s)(ext \<mapsto> True)\<rparr>) extensions s) = IgnoredNames s
   \<and> Patterns (fold (\<lambda>ext s. s\<lparr>AllowedExts := (AllowedExts s)(ext \<mapsto> True)\<rparr>) extensions s) = Patterns s
   \<and> Root (fold (\<lambda>ext s. s\<lparr>AllowedExts := (AllowedExts s)(ext \<mapsto> True)\<rparr>) extensions s) = Root s"
  by (induction extensions arbitrary: s) simp_all

lemma NewScanner_IgnoredNames:
  "IgnoredNames (fst (NewScanner root ignoreFile extensions sys))
     = [''.git'' \<mapsto> True, ''node_modules'' \<mapsto> True]"
  by (simp add: NewScanner_def Let_def fold_AllowedExts_frame split: sum.split)

text \<open>
  Claim C9. Whatever the root, the ignore-file path, the extensions and the file
  system, the scanner \<^verbatim>\<open>NewScanner\<close> returns ignores exactly the directory names
  \<^verbatim>\<open>.git\<close> and \<^verbatim>\<open>node_modules\<close>: these two are the keys of \<^verbatim>\<open>IgnoredNames\<close>,
  and the only names the map reads as true.
\<close>

theorem NewScanner_ignored_names_fixed:
  "{name. index_bool (IgnoredNames (fst (NewScanner root ignoreFile extensions sys))) name}
     = {''.git'', ''node_modules''}
   \<and> dom (IgnoredNames (fst (NewScanner root ignoreFile extensions sys)))
     = {''.git'', ''node_modules''}"
  by (auto simp: NewScanner_IgnoredNames index_bool_def split: if_splits)

lemma NewScanner_open_fails:
  "Open sys ignoreFile = Inl e \<Longrightarrow>
     NewScanner root ignoreFile extensions sys =
       (fold (\<lambda>ext s. s\<lparr>AllowedExts := (AllowedExts s)(ext \<mapsto> True)\<rparr>) extensions
          \<lparr>Root = root, IgnoredNames = [''.git'' \<mapsto> True, ''node_modules'' \<mapsto> True],
           Patterns = [], AllowedExts = Map.empty\<rparr>, None)"
  by (simp add: NewScanner_def Let_def)

lemma readPatterns_empty: "readPatterns [] pats = pats"
  by (subst readPatterns.simps) (simp add: Scan_def)

lemma NewScanner_empty_file:
  "Open sys ignoreFile = Inr [] \<Longrightarrow>
     NewScanner root ignoreFile extensions sys =
       (fold (\<lambda>ext s. s\<lparr>AllowedExts := (AllowedExts s)(ext \<mapsto> True)\<rparr>) extensions
          \<lparr>Root = root, IgnoredNames = [''.git'' \<mapsto> True, ''node_modules'' \<mapsto> True],
           Patterns = [], AllowedExts = Map.empty\<rparr>, None)"
  by (simp add: NewScanner_def Let_def readPatterns_empty fold_AllowedExts_frame)


text \<open>
  Claim C3. When the ignore-file cannot be opened, \<^verbatim>\<open>NewScanner\<close> returns no error
  and a scanner with no patterns, the same scanner it returns for an ignore-file that
  exists and is empty; a scan with it is a scan with an empty pattern list.
\<close>

theorem NewScanner_tolerates_missing_ignore_file:
  assumes "Open sys ignoreFile = Inl e"
  shows "snd (NewScanner root ignoreFile extensions sys) = None
    \<and> Patterns (fst (NewScanner root ignoreFile extensions sys)) = []
    \<and> NewScanner root ignoreFile extensions sys
        = NewScanner root ignoreFile extensions (sys\<lparr>Open := (Open sys)(ignoreFile := Inr [])\<rparr>)
    \<and> ScanForAI (fst (NewScanner root ignoreFile extensions sys)) workerCount callback sys2 st
        = ScanForAI ((fst (NewScanner root ignoreFile extensions sys))\<lparr>Patterns := []\<rparr>)
            workerCount callback sys2 st"
proof -
  have e: "snd (NewScanner root ignoreFile extensions sys) = None"
    using assms by (simp add: NewScanner_open_fails)
  have p: "Patterns (fst (NewScanner root ignoreFile extensions sys)) = []"
    using assms by (simp add: NewScanner_open_fails fold_AllowedExts_frame)
  have o: "Open (sys\<lparr>Open := (Open sys)(ignoreFile := Inr [])\<rparr>) ignoreFile = Inr []"
    by simp
  have n: "NewScanner root ignoreFile extensions sys
      = NewScanner root ignoreFile extensions (sys\<lparr>Open := (Open sys)(ignoreFile := Inr [])\<rparr>)"
    unfolding NewScanner_open_fails [OF assms] NewScanner_empty_file [OF o] by (rule refl)
  have "(fst (NewScanner root ignoreFile extensions sys))\<lparr>Patterns := []\<rparr>
      = fst (NewScanner root ignoreFile extensions sys)"
    using p by (cases "fst (NewScanner root ignoreFile extensions sys)") simp
  then have s: "ScanForAI (fst (NewScanner root ignoreFile extensions sys)) workerCount callback sys2 st
        = ScanForAI ((fst (NewScanner root ignoreFile extensions sys))\<lparr>Patterns := []\<rparr>)
            workerCount callback sys2 st"
    by simp
  show ?thesis using e p n s by blast
qed

theorem NewScanner_tolerates_missing_ignore_file_witness:
  "Open example_os ''.gitignore'' = Inl 2
   \<and> snd (NewScanner ''.'' ''.gitignore'' [''.go''] example_os) = None
   \<and> Patterns (fst (NewScanner ''.'' ''.gitignore'' [''.go''] example_os)) = []"
proof -
  have h: "Open example_os ''.gitignore'' = Inl 2" by (simp add: example_os_def)
  show ?thesis
    using h NewScanner_tolerates_missing_ignore_file
            [OF h, of "''.''" "[''.go'']" 1 "\<lambda>fc st. st" example_os "()"]
    by blast
qed

text \<open>
  The tree without what lies below its ignored directories: a directory with an
  ignored name is kept, empty and readable.
\<close>

fun prune :: "FileScanner \<Rightarrow> string \<Rightarrow> fsnode \<Rightarrow> fsnode"
  and prune_entries :: "FileScanner \<Rightarrow> (string \<times> fsnode) list \<Rightarrow> (string \<times> fsnode) list"
where
  "prune s name File = File"
| "prune s name (Dir ents rderr) =
     (if index_bool (IgnoredNames s) name then Dir [] None else Dir (prune_entries s ents) rderr)"
| "prune_entries s [] = []"
| "prune_entries s ((name1, d1) # dirs) = (name1, prune s name1 d1) # prune_entries s dirs"

definition prune_os :: "FileScanner \<Rightarrow> os \<Rightarrow> os" where
  "prune_os s sys =
     sys\<lparr>Lstat := (\<lambda>p. case Lstat sys p of
                          Inl errno \<Rightarrow> Inl errno
                        | Inr tree \<Rightarrow> Inr (prune s (basename p) tree))\<rparr>"

lemma walkDir_ignored:
  "index_bool (IgnoredNames s) name \<Longrightarrow>
     walkDir path name (Dir ents rderr) (walkFn s) sent = (None, sent)"
  by simp

lemma walkDir_prune:
  "walkDir path name (prune s name node) (walkFn s) sent = walkDir path name node (walkFn s) sent"
  "walkDir_entries path (prune_entries s ents) (walkFn s) sent = walkDir_entries path ents (walkFn s) sent"
  by (induction s name node and s ents arbitrary: path sent and path sent
      rule: prune_prune_entries.induct)
     (auto split: option.splits prod.splits)

lemma WalkDir_prune_os:
  "WalkDir (prune_os s sys) root (walkFn s) sent = WalkDir sys root (walkFn s) sent"
  by (cases "Lstat sys root") (simp_all add: WalkDir_def prune_os_def walkDir_prune)

lemma ScanForAI_prune_os:
  "ScanForAI s workerCount callback (prune_os s sys) st = ScanForAI s workerCount callback sys st"
proof -
  have "sink_calls (prune_os s sys) = sink_calls sys"
    by (rule ext) (simp add: sink_calls_def prune_os_def)
  then show ?thesis by (simp add: ScanForAI_def WalkDir_prune_os worker_fold split: prod.splits)
qed

definition example_scanner :: FileScanner where
  "example_scanner = fst (NewScanner ''.'' ''.gitignore'' [''.go''] example_os)"

definition record_call :: "FileContent \<Rightarrow> FileContent list \<Rightarrow> FileContent list" where
  "record_call fc log = log @ [fc]"

section \<open>Properties of ScanForAI\<close>

text \<open>
  Claim C1, as amended. With at least one worker, the callback is called for the
  files the walk has sent that can be read, once each and for nothing else, and the
  walk sends files that meet the three conditions only: an allowed extension, a base
  name no pattern matches, no directory above with an ignored name. When the walk
  meets no error it sends every such file of the tree, so that the callback is called
  for a file exactly when the file meets the three conditions and can be read. When
  the walk meets an error it stops there: the files sent are an initial part, in the
  order of the walk, of the files that meet the conditions.
\<close>

theorem ScanForAI_calls_callback_for_eligible_files:
  assumes "1 \<le> workerCount"
  shows "\<exists>sent.
           ScanForAI s workerCount callback sys st =
             Some (first_error (scan_errors s sys),
                   fold callback
                     (concat (map (\<lambda>path. case ReadFile sys path of
                                               Inl err \<Rightarrow> []
                                             | Inr bytes \<Rightarrow> [\<lparr>Path = path, Content = bytes\<rparr>]) sent))
                     st)
         \<and> prefix sent (map fst (filter (eligible s) (scan_files s sys)))
         \<and> (scan_errors s sys = [] \<longrightarrow> sent = map fst (filter (eligible s) (scan_files s sys)))"
proof -
  have "sink_calls sys = (\<lambda>path. case ReadFile sys path of
                                    Inl err \<Rightarrow> []
                                  | Inr bytes \<Rightarrow> [\<lparr>Path = path, Content = bytes\<rparr>])"
    by (rule ext) (simp add: sink_calls_def)
  then show ?thesis using scan_characterisation [OF assms, of s callback sys st] by simp
qed

theorem ScanForAI_calls_callback_for_eligible_files_witness:
  "(1::int) \<le> 4
   \<and> scan_errors example_scanner example_os = []
   \<and> map fst (filter (eligible example_scanner) (scan_files example_scanner example_os))
       = [''a.go'', ''sub/d.go'']
   \<and> ScanForAI example_scanner 4 record_call example_os [] =
       Some (None, [\<lparr>Path = ''a.go'', Content = ''package a.go''\<rparr>,
                    \<lparr>Path = ''sub/d.go'', Content = ''package sub/d.go''\<rparr>])"
proof -
  have e: "scan_errors example_scanner example_os = []" by code_simp
  have f: "map fst (filter (eligible example_scanner) (scan_files example_scanner example_os))
             = [''a.go'', ''sub/d.go'']"
    by code_simp
  have r: "ReadFile example_os = (\<lambda>p. Inr (''package '' @ p))" by (simp add: example_os_def)
  from ScanForAI_calls_callback_for_eligible_files [of 4 example_scanner record_call example_os "[]"]
  obtain sent where
    "ScanForAI example_scanner 4 record_call example_os [] =
       Some (first_error (scan_errors example_scanner example_os),
             fold record_call
               (concat (map (\<lambda>path. case ReadFile example_os path of
                                         Inl err \<Rightarrow> []
                                       | Inr bytes \<Rightarrow> [\<lparr>Path = path, Content = bytes\<rparr>]) sent))
               [])"
    and "scan_errors example_scanner example_os = [] \<longrightarrow>
           sent = map fst (filter (eligible example_scanner) (scan_files example_scanner example_os))"
    by auto
  then have "ScanForAI example_scanner 4 record_call example_os [] =
       Some (None, [\<lparr>Path = ''a.go'', Content = ''package a.go''\<rparr>,
                    \<lparr>Path = ''sub/d.go'', Content = ''package sub/d.go''\<rparr>])"
    using e f r by (simp add: first_error_def record_call_def)
  then show ?thesis using e f by simp
qed

text \<open>
  The claim as it is written fails where the walk meets an error. In the tree
  \<^verbatim>\<open>{a/, b.go}\<close> whose directory \<^verbatim>\<open>a\<close> cannot be read, the file \<^verbatim>\<open>b.go\<close> has an allowed
  extension, matches no pattern, has no ignored directory above it and can be read;
  the walk returns the error of \<^verbatim>\<open>a\<close> before it reaches \<^verbatim>\<open>b.go\<close>, and the callback is
  never called.
\<close>

definition unreadable_dir_os :: os where
  "unreadable_dir_os =
     \<lparr>Lstat = (\<lambda>p. if p = ''.'' then Inr (Dir [(''a'', Dir [] (Some (''open'', 13))), (''b.go'', File)] None)
                     else Inl 2),
      ReadFile = (\<lambda>p. Inr (''package '' @ p)),
      Open = (\<lambda>p. Inl 2)\<rparr>"

theorem callback_not_called_after_walk_error:
  "(''b.go'', ''b.go'', [''.''])
      \<in> set (scan_files (fst (NewScanner ''.'' ''.gitignore'' [''.go''] unreadable_dir_os)) unreadable_dir_os)
   \<and> eligible (fst (NewScanner ''.'' ''.gitignore'' [''.go''] unreadable_dir_os)) (''b.go'', ''b.go'', [''.''])
   \<and> ReadFile unreadable_dir_os ''b.go'' = Inr ''package b.go''
   \<and> ScanForAI (fst (NewScanner ''.'' ''.gitignore'' [''.go''] unreadable_dir_os)) 1 record_call
         unreadable_dir_os []
       = Some (Some (PathError ''open'' ''a'' 13), [])"
  by code_simp

text \<open>
  Claim C2. The walk of a directory with an ignored name returns at once: it sends
  nothing and returns no error, whatever the directory holds and whether it can be
  read or not, since \<^verbatim>\<open>WalkDir\<close> neither reads the directory nor calls the callback
  for anything below it. So a scan does not depend on what lies below the ignored
  directories of its tree: it is the scan of the tree without it.
\<close>

theorem ignored_directory_is_never_descended:
  "(index_bool (IgnoredNames s) name \<longrightarrow>
      walkDir path name (Dir ents rderr) (walkFn s) sent = (None, sent))
   \<and> ScanForAI s workerCount callback (prune_os s sys) st = ScanForAI s workerCount callback sys st"
  using walkDir_ignored [of s name path ents rderr sent]
    ScanForAI_prune_os [of s workerCount callback sys st]
  by blast

theorem ignored_directory_is_never_descended_witness:
  "index_bool (IgnoredNames example_scanner) ''.git''
   \<and> walkDir ''sub/.git'' ''.git'' (Dir [(''c.go'', File)] None) (walkFn example_scanner) [''a.go'']
       = (None, [''a.go''])
   \<and> Lstat (prune_os example_scanner example_os) ''.''
       = Inr (Dir [(''a.go'', File), (''b.txt'', File),
                   (''sub'', Dir [(''.git'', Dir [] None), (''d.go'', File)] None)] None)
   \<and> ScanForAI example_scanner 2 record_call (prune_os example_scanner example_os) []
       = ScanForAI example_scanner 2 record_call example_os []"
proof -
  have i: "index_bool (IgnoredNames example_scanner) ''.git''" by code_simp
  have l: "Lstat (prune_os example_scanner example_os) ''.''
       = Inr (Dir [(''a.go'', File), (''b.txt'', File),
                   (''sub'', Dir [(''.git'', Dir [] None), (''d.go'', File)] None)] None)"
    by code_simp
  show ?thesis
    using i l ignored_directory_is_never_descended
            [of example_scanner "''.git''" "''sub/.git''" "[(''c.go'', File)]" None "[''a.go'']"
                2 record_call example_os "[]"]
    by blast
qed

text \<open>
  Claim C4. With at least one worker, every path the walk has sent is read once: a
  read that succeeds leads to one call of the callback, with the path and the bytes
  read, and a read that fails leads to none, and in both cases the paths sent after
  it are read as well. The scan returns what the walk returned: a failed read
  changes nothing but the one call that is left out.
\<close>

theorem each_dispatched_path_is_read_once:
  assumes "1 \<le> workerCount"
  shows "ScanForAI s workerCount callback sys st =
           Some (fst (WalkDir sys (Root s) (walkFn s) []),
                 fold callback
                   (concat (map (\<lambda>path. case ReadFile sys path of
                                             Inl err \<Rightarrow> []
                                           | Inr bytes \<Rightarrow> [\<lparr>Path = path, Content = bytes\<rparr>])
                              (dispatched s sys)))
                   st)"
proof -
  have "sink_calls sys = (\<lambda>path. case ReadFile sys path of
                                    Inl err \<Rightarrow> []
                                  | Inr bytes \<Rightarrow> [\<lparr>Path = path, Content = bytes\<rparr>])"
    by (rule ext) (simp add: sink_calls_def)
  then show ?thesis using ScanForAI_workers [OF assms, of s callback sys st] by simp
qed

text \<open>The example tree, with \<^verbatim>\<open>a.go\<close> unreadable: the scan goes on to \<^verbatim>\<open>sub/d.go\<close>.\<close>

definition unreadable_file_os :: os where
  "unreadable_file_os =
     example_os\<lparr>ReadFile := (\<lambda>p. if p = ''a.go'' then Inl 13 else Inr (''package '' @ p))\<rparr>"

theorem each_dispatched_path_is_read_once_witness:
  "(1::int) \<le> 3
   \<and> dispatched example_scanner unreadable_file_os = [''a.go'', ''sub/d.go'']
   \<and> ReadFile unreadable_file_os ''a.go'' = Inl 13
   \<and> ScanForAI example_scanner 3 record_call unreadable_file_os []
       = Some (None, [\<lparr>Path = ''sub/d.go'', Content = ''package sub/d.go''\<rparr>])"
proof -
  have d: "dispatched example_scanner unreadable_file_os = [''a.go'', ''sub/d.go'']" by code_simp
  have w: "fst (WalkDir unreadable_file_os (Root example_scanner) (walkFn example_scanner) []) = None"
    by code_simp
  have r: "ReadFile unreadable_file_os = (\<lambda>p. if p = ''a.go'' then Inl 13 else Inr (''package '' @ p))"
    by (simp add: unreadable_file_os_def)
  have "ScanForAI example_scanner 3 record_call unreadable_file_os []
       = Some (None, [\<lparr>Path = ''sub/d.go'', Content = ''package sub/d.go''\<rparr>])"
    using each_dispatched_path_is_read_once [of 3 example_scanner record_call unreadable_file_os "[]"]
    by (simp add: d w r record_call_def)
  then show ?thesis using d r by simp
qed

text \<open>
  Claim C5. With at least one worker the scan returns, and what it returns is the
  first error of the walk: \<^verbatim>\<open>nil\<close> when neither \<^verbatim>\<open>os.Lstat\<close> of the root nor
  \<^verbatim>\<open>os.ReadDir\<close> of a directory that is walked fails, and the error of the first call
  that fails otherwise. The result of reading the files has no part in it: the scan
  returns the same on every system that differs in \<^verbatim>\<open>os.ReadFile\<close> only.
\<close>

theorem ScanForAI_returns_first_walk_error:
  assumes "1 \<le> workerCount"
  shows "map_option fst (ScanForAI s workerCount callback sys st) = Some (first_error (scan_errors s sys))
    \<and> map_option fst (ScanForAI s workerCount callback (sys\<lparr>ReadFile := rf\<rparr>) st)
        = Some (first_error (scan_errors s sys))
    \<and> (scan_errors s sys = [] \<longrightarrow>
          map_option fst (ScanForAI s workerCount callback sys st) = Some None)"
proof -
  have a: "map_option fst (ScanForAI s workerCount callback y st) = Some (first_error (scan_errors s y))"
    for y
    using scan_characterisation [OF assms, of s callback y st] by auto
  have "scan_errors s (sys\<lparr>ReadFile := rf\<rparr>) = scan_errors s sys"
    by (simp add: scan_errors_def)
  then show ?thesis using a [of sys] a [of "sys\<lparr>ReadFile := rf\<rparr>"]
    by (auto simp: first_error_def)
qed

theorem ScanForAI_returns_first_walk_error_witness:
  "(1::int) \<le> 1
   \<and> scan_errors (fst (NewScanner ''.'' ''.gitignore'' [''.go''] unreadable_dir_os)) unreadable_dir_os
       = [PathError ''open'' ''a'' 13]
   \<and> map_option fst
        (ScanForAI (fst (NewScanner ''.'' ''.gitignore'' [''.go''] unreadable_dir_os)) 1 record_call
           (unreadable_dir_os\<lparr>ReadFile := (\<lambda>p. Inl 5)\<rparr>) [])
       = Some (Some (PathError ''open'' ''a'' 13))
   \<and> scan_errors example_scanner example_os = []
   \<and> map_option fst (ScanForAI example_scanner 1 record_call example_os []) = Some None"
proof -
  have e: "scan_errors (fst (NewScanner ''.'' ''.gitignore'' [''.go''] unreadable_dir_os)) unreadable_dir_os
       = [PathError ''open'' ''a'' 13]"
    by code_simp
  have e2: "scan_errors example_scanner example_os = []" by code_simp
  show ?thesis
    using e e2
      ScanForAI_returns_first_walk_error
        [of 1 "fst (NewScanner ''.'' ''.gitignore'' [''.go''] unreadable_dir_os)" record_call
            unreadable_dir_os "[]" "\<lambda>p. Inl 5"]
      ScanForAI_returns_first_walk_error [of 1 example_scanner record_call example_os "[]"]
    by (simp add: first_error_def)
qed

lemma Match_error_not_matched:
  "Match pattern name = (matched, Some e) \<Longrightarrow> matched = False"
proof (induction pattern name arbitrary: matched e rule: Match.induct)
  case (1 pattern name)
  have u: "(matched, Some e) =
     (if pattern = [] then (name = [], None)
      else
        (case scanChunk pattern of
           (star, chunk, rest) \<Rightarrow>
             if star \<and> chunk = [] then (CHR ''/'' \<notin> set name, None)
             else
               (case matchChunk chunk name of
                  (t, ok, err) \<Rightarrow>
                    if ok \<and> (t = [] \<or> rest \<noteq> []) then Match rest t
                    else
                      (case err of
                         Some e \<Rightarrow> (False, Some e)
                       | None \<Rightarrow>
                           (case (if star then starLoop chunk (rest = []) name else StarFailed) of
                              StarMatched t' \<Rightarrow> Match rest t'
                            | StarError e \<Rightarrow> (False, Some e)
                            | StarFailed \<Rightarrow>
                                (case checkRest rest of
                                   Some e \<Rightarrow> (False, Some e)
                                 | None \<Rightarrow> (False, None)))))))"
    using "1.prems" by (subst (asm) Match.simps) simp
  show ?case
  proof (cases "pattern = []")
    case True
    then show ?thesis using u by simp
  next
    case False
    obtain star chunk rest where sc: "scanChunk pattern = (star, chunk, rest)"
      by (cases "scanChunk pattern")
    obtain t ok err where mc: "matchChunk chunk name = (t, ok, err)"
      by (cases "matchChunk chunk name")
    show ?thesis
    proof (cases "star \<and> chunk = []")
      case True
      then show ?thesis using u False sc by simp
    next
      case nostar: False
      show ?thesis
      proof (cases "ok \<and> (t = [] \<or> rest \<noteq> [])")
        case True
        then have "Match rest t = (matched, Some e)" using u False sc mc nostar by simp
        then show ?thesis
          using "1.IH"(1) [OF False sc [symmetric] refl nostar mc [symmetric] refl True] by simp
      next
        case notok: False
        show ?thesis
        proof (cases err)
          case (Some e')
          then show ?thesis using u False sc mc nostar notok by auto
        next
          case None
          show ?thesis
          proof (cases "if star then starLoop chunk (rest = []) name else StarFailed")
            case (StarMatched t')
            then have "Match rest t' = (matched, Some e)"
              using u False sc mc nostar notok None by simp
            then show ?thesis
              using "1.IH"(2) [OF False sc [symmetric] refl nostar mc [symmetric] refl notok None StarMatched]
              by simp
          next
            case StarFailed
            then show ?thesis using u False sc mc nostar notok None
              by (auto split: option.splits)
          next
            case (StarError e')
            then show ?thesis using u False sc mc nostar notok None by auto
          qed
        qed
      qed
    qed
  qed
qed

lemma Match_error_fst: "snd (Match p name) \<noteq> None \<Longrightarrow> \<not> fst (Match p name)"
proof -
  assume "snd (Match p name) \<noteq> None"
  then obtain e where "snd (Match p name) = Some e" by auto
  then have "Match p name = (fst (Match p name), Some e)" by (metis prod.collapse)
  then show ?thesis using Match_error_not_matched by blast
qed

lemma patternLoop_bad_pattern:
  assumes "snd (Match p name) \<noteq> None"
  shows "patternLoop (ps1 @ p # ps2) name = patternLoop (ps1 @ ps2) name"
proof -
  have "\<not> fst (Match p name)" using assms by (rule Match_error_fst)
  then show ?thesis by (auto simp: patternLoop_iff)
qed

lemma walkDir_cong:
  assumes "IgnoredNames s' = IgnoredNames s" and "AllowedExts s' = AllowedExts s"
  shows "(\<forall>f \<in> set (tree_files path name ancs node).
            patternLoop (Patterns s') (fst (snd f)) = patternLoop (Patterns s) (fst (snd f))) \<Longrightarrow>
         walkDir path name node (walkFn s') sent = walkDir path name node (walkFn s) sent"
    and "(\<forall>f \<in> set (tree_files_entries path ancs ents).
            patternLoop (Patterns s') (fst (snd f)) = patternLoop (Patterns s) (fst (snd f))) \<Longrightarrow>
         walkDir_entries path ents (walkFn s') sent = walkDir_entries path ents (walkFn s) sent"
proof (induction path name ancs node and path ancs ents arbitrary: sent and sent
       rule: tree_files_tree_files_entries.induct)
  case (1 path name ancestors)
  then show ?case using assms by (simp add: walkFn_def del: walkFn_file)
next
  case (2 path name ancestors ents rderr)
  then show ?case using assms by (auto split: option.splits prod.splits)
next
  case (3 path ancestors)
  then show ?case by simp
next
  case (4 path ancestors name1 d1 dirs)
  then show ?case by (auto split: option.splits prod.splits)
qed

lemma ScanForAI_cong:
  assumes "Root s' = Root s" and "IgnoredNames s' = IgnoredNames s" and "AllowedExts s' = AllowedExts s"
    and "\<forall>f \<in> set (scan_files s sys).
            patternLoop (Patterns s') (fst (snd f)) = patternLoop (Patterns s) (fst (snd f))"
  shows "ScanForAI s' workerCount callback sys st = ScanForAI s workerCount callback sys st"
proof -
  have "WalkDir sys (Root s) (walkFn s') [] = WalkDir sys (Root s) (walkFn s) []"
  proof (cases "Lstat sys (Root s)")
    case (Inl errno)
    then show ?thesis by (simp add: WalkDir_def)
  next
    case (Inr tree)
    then have "walkDir (Root s) (basename (Root s)) tree (walkFn s') []
        = walkDir (Root s) (basename (Root s)) tree (walkFn s) []"
      using assms(4) walkDir_cong(1) [OF assms(2,3), of "Root s" "basename (Root s)" "[]" tree "[]"]
      by (simp add: scan_files_def)
    then show ?thesis using Inr by (simp add: WalkDir_def)
  qed
  then show ?thesis using assms(1) by (simp add: ScanForAI_def)
qed

text \<open>
  Claim C10. A pattern for which \<^verbatim>\<open>filepath.Match\<close> reports an error on a name is
  reported as not matching that name, and the callback drops the error: the loop over
  the patterns decides as if the pattern were not in the list. A scan with such a
  pattern, one that is malformed for the base name of every file of the tree, is the
  scan without it: the same calls of the callback and the same result.
\<close>

theorem malformed_pattern_excludes_nothing:
  "(snd (Match p name) \<noteq> None \<longrightarrow>
      \<not> fst (Match p name) \<and> patternLoop (ps1 @ p # ps2) name = patternLoop (ps1 @ ps2) name)
   \<and> ((\<forall>f \<in> set (scan_files s sys). snd (Match p (fst (snd f))) \<noteq> None) \<longrightarrow>
        ScanForAI (s\<lparr>Patterns := ps1 @ p # ps2\<rparr>) workerCount callback sys st
          = ScanForAI (s\<lparr>Patterns := ps1 @ ps2\<rparr>) workerCount callback sys st)"
proof -
  have a: "\<not> fst (Match p name)" if "snd (Match p name) \<noteq> None"
    using that by (rule Match_error_fst)
  have b: "ScanForAI (s\<lparr>Patterns := ps1 @ p # ps2\<rparr>) workerCount callback sys st
          = ScanForAI (s\<lparr>Patterns := ps1 @ ps2\<rparr>) workerCount callback sys st"
    if h: "\<forall>f \<in> set (scan_files s sys). snd (Match p (fst (snd f))) \<noteq> None"
  proof (rule ScanForAI_cong)
    have "scan_files (s\<lparr>Patterns := ps1 @ ps2\<rparr>) sys = scan_files s sys"
      by (simp add: scan_files_def split: sum.splits)
    then show "\<forall>f \<in> set (scan_files (s\<lparr>Patterns := ps1 @ ps2\<rparr>) sys).
            patternLoop (Patterns (s\<lparr>Patterns := ps1 @ p # ps2\<rparr>)) (fst (snd f))
              = patternLoop (Patterns (s\<lparr>Patterns := ps1 @ ps2\<rparr>)) (fst (snd f))"
      using h patternLoop_bad_pattern by simp
  qed simp_all
  show ?thesis using a b patternLoop_bad_pattern [of p name ps1 ps2] by blast
qed

text \<open>
  The example tree with the ignore-file \<^verbatim>\<open>[\<close>, \<^verbatim>\<open>d*\<close>: the first pattern is malformed
  and excludes nothing, the second excludes \<^verbatim>\<open>sub/d.go\<close>.
\<close>

theorem malformed_pattern_excludes_nothing_witness:
  "snd (Match ''['' ''a.go'') \<noteq> None
   \<and> \<not> fst (Match ''['' ''a.go'')
   \<and> (\<forall>f \<in> set (scan_files example_scanner example_os). snd (Match ''['' (fst (snd f))) \<noteq> None) = True
   \<and> ScanForAI (example_scanner\<lparr>Patterns := [''['', ''d*'']\<rparr>) 2 record_call example_os []
       = ScanForAI (example_scanner\<lparr>Patterns := [''d*'']\<rparr>) 2 record_call example_os []
   \<and> ScanForAI (example_scanner\<lparr>Patterns := [''['', ''d*'']\<rparr>) 2 record_call example_os []
       = Some (None, [\<lparr>Path = ''a.go'', Content = ''package a.go''\<rparr>])"
proof -
  have m: "snd (Match ''['' ''a.go'') \<noteq> None" by code_simp
  have f: "\<forall>f \<in> set (scan_files example_scanner example_os). snd (Match ''['' (fst (snd f))) \<noteq> None"
    by code_simp
  have r: "ScanForAI (example_scanner\<lparr>Patterns := [''['', ''d*'']\<rparr>) 2 record_call example_os []
       = Some (None, [\<lparr>Path = ''a.go'', Content = ''package a.go''\<rparr>])"
    by code_simp
  show ?thesis
    using m f r
      malformed_pattern_excludes_nothing
        [of "''[''" "''a.go''" "[]" "[''d*'']" example_scanner example_os 2 record_call "[]"]
    by simp
qed

section \<open>The paths of a walk and their base names\<close>

text \<open>
  A name \<^verbatim>\<open>os.ReadDir\<close> can return for an entry: not empty, no separator in it, and
  neither \<^verbatim>\<open>.\<close> nor \<^verbatim>\<open>..\<close>.
\<close>

definition valid_name :: "string \<Rightarrow> bool" where
  "valid_name name = (name \<noteq> [] \<and> CHR ''/'' \<notin> set name \<and> name \<noteq> ''.'' \<and> name \<noteq> ''..'')"

text \<open>The path ends with the name as its last element.\<close>

definition ends_with_element :: "string \<Rightarrow> string \<Rightarrow> bool" where
  "ends_with_element path name = (path = name \<or> (\<exists>pre. path = pre @ ''/'' @ name))"

lemma backtrack_ge: "dotdot \<le> w \<Longrightarrow> dotdot \<le> backtrack out dotdot w"
  by (induction w) auto

lemma backtrack_le: "backtrack out dotdot w \<le> w"
  by (induction w) (auto simp: le_Suc_eq)

lemma Clean_loop_slash:
  "Clean_loop (CHR ''/'' # cs) rooted out dotdot = Clean_loop cs rooted out dotdot"
  by simp

lemma Clean_loop_dot:
  "cs = [] \<or> hd cs = CHR ''/'' \<Longrightarrow>
     Clean_loop (CHR ''.'' # cs) rooted out dotdot = Clean_loop cs rooted out dotdot"
  by simp

lemma Clean_loop_dotdot:
  assumes "cs \<noteq> []" and "hd cs = CHR ''.''" and "tl cs = [] \<or> hd (tl cs) = CHR ''/''"
  shows "Clean_loop (CHR ''.'' # cs) rooted out dotdot =
           Clean_loop (tl cs) rooted
             (if dotdot < length out then take (backtrack out dotdot (length out - 1)) out
              else if \<not> rooted then (if 0 < length out then out @ ''/'' else out) @ ''..''
              else out)
             (if dotdot < length out then dotdot
              else if \<not> rooted then length ((if 0 < length out then out @ ''/'' else out) @ ''..'')
              else dotdot)"
proof -
  have "\<not> (cs = [] \<or> hd cs = CHR ''/'')" using assms by auto
  then show ?thesis using assms(2,3)
    by (simp only: Clean_loop.simps Let_def) (simp split: if_splits)
qed

lemma Clean_loop_real:
  assumes "c \<noteq> CHR ''/''" and "\<not> (c = CHR ''.'' \<and> (cs = [] \<or> hd cs = CHR ''/''))"
    and "\<not> (c = CHR ''.'' \<and> hd cs = CHR ''.'' \<and> (tl cs = [] \<or> hd (tl cs) = CHR ''/''))"
  shows "Clean_loop (c # cs) rooted out dotdot =
           Clean_loop (dropWhile (\<lambda>x. x \<noteq> CHR ''/'') (c # cs)) rooted
             ((if rooted \<and> length out \<noteq> 1 \<or> \<not> rooted \<and> length out \<noteq> 0 then out @ ''/'' else out)
                @ takeWhile (\<lambda>x. x \<noteq> CHR ''/'') (c # cs)) dotdot"
  using assms by (simp only: Clean_loop.simps Let_def if_False if_True)

declare Clean_loop.simps [simp del]

lemma Clean_loop_element:
  assumes "valid_name n"
  shows "xs = [] \<or> last xs = CHR ''/'' \<Longrightarrow>
         (rooted \<longrightarrow> out \<noteq> [] \<and> hd out = CHR ''/'' \<and> 1 \<le> dotdot) \<Longrightarrow>
         \<exists>pre. Clean_loop (xs @ n) rooted out dotdot = pre @ n \<and> (pre = [] \<or> last pre = CHR ''/'')"
proof (induction "length xs" arbitrary: xs out dotdot rule: less_induct)
  case less
  obtain c cs where n: "n = c # cs" using assms by (cases n) (auto simp: valid_name_def)
  have noslash: "CHR ''/'' \<notin> set n" using assms by (simp add: valid_name_def)
  show ?case
  proof (cases xs)
    case Nil
    have c1: "\<not> (c = CHR ''.'' \<and> (cs = [] \<or> hd cs = CHR ''/''))"
      using assms n by (cases cs) (auto simp: valid_name_def)
    have c2: "\<not> (c = CHR ''.'' \<and> hd cs = CHR ''.'' \<and> (tl cs = [] \<or> hd (tl cs) = CHR ''/''))"
    proof
      assume a: "c = CHR ''.'' \<and> hd cs = CHR ''.'' \<and> (tl cs = [] \<or> hd (tl cs) = CHR ''/'')"
      have "cs \<noteq> []" using c1 a by auto
      then obtain d ds where cs: "cs = d # ds" by (cases cs) auto
      then show False using a assms n by (cases ds) (auto simp: valid_name_def)
    qed
    have tw: "takeWhile (\<lambda>x. x \<noteq> CHR ''/'') (c # cs) = c # cs"
      using noslash n by (auto simp: takeWhile_eq_all_conv)
    have dw: "dropWhile (\<lambda>x. x \<noteq> CHR ''/'') (c # cs) = []"
      using noslash n by (auto simp: dropWhile_eq_Nil_conv)
    have c0: "c \<noteq> CHR ''/''" using noslash n by auto
    let ?out = "(if rooted \<and> length out \<noteq> 1 \<or> \<not> rooted \<and> length out \<noteq> 0 then out @ ''/'' else out)"
    have "Clean_loop (c # cs) rooted out dotdot
        = Clean_loop (dropWhile (\<lambda>x. x \<noteq> CHR ''/'') (c # cs)) rooted
            (?out @ takeWhile (\<lambda>x. x \<noteq> CHR ''/'') (c # cs)) dotdot"
      by (rule Clean_loop_real [OF c0 c1 c2])
    then have r: "Clean_loop (xs @ n) rooted out dotdot = ?out @ n"
      using Nil n tw dw by (simp add: Clean_loop.simps(1))
    have "?out = [] \<or> last ?out = CHR ''/''"
    proof (cases "rooted \<and> length out \<noteq> 1 \<or> \<not> rooted \<and> length out \<noteq> 0")
      case True
      then show ?thesis by simp
    next
      case False
      then show ?thesis using less.prems(2) by (cases out) auto
    qed
    then show ?thesis using r by blast
  next
    case (Cons x xs')
    have lastx: "last (x # xs') = CHR ''/''" using less.prems(1) Cons by simp
    show ?thesis
    proof (cases "x = CHR ''/''")
      case True
      have "xs' = [] \<or> last xs' = CHR ''/''" using lastx by (cases xs') auto
      then have "\<exists>pre. Clean_loop (xs' @ n) rooted out dotdot = pre @ n \<and> (pre = [] \<or> last pre = CHR ''/'')"
        using less.hyps [of xs' out dotdot] less.prems(2) Cons by simp
      then show ?thesis using True Cons by (simp add: Clean_loop_slash)
    next
      case xnoslash: False
      then have xs'ne: "xs' \<noteq> []" and lastxs': "last xs' = CHR ''/''"
        using lastx by (cases xs'; auto)+
      show ?thesis
      proof (cases "x = CHR ''.'' \<and> hd xs' = CHR ''/''")
        case True
        have "hd (xs' @ n) = CHR ''/''" using True xs'ne by simp
        then have "Clean_loop (xs @ n) rooted out dotdot = Clean_loop (xs' @ n) rooted out dotdot"
          using True Cons by (simp add: Clean_loop_dot)
        moreover have "\<exists>pre. Clean_loop (xs' @ n) rooted out dotdot = pre @ n \<and> (pre = [] \<or> last pre = CHR ''/'')"
          using less.hyps [of xs' out dotdot] less.prems(2) Cons lastxs' by simp
        ultimately show ?thesis by simp
      next
        case notdot: False
        have c1: "\<not> (x = CHR ''.'' \<and> (xs' @ n = [] \<or> hd (xs' @ n) = CHR ''/''))"
          using notdot xs'ne by simp
        show ?thesis
        proof (cases "x = CHR ''.'' \<and> hd xs' = CHR ''.'' \<and> hd (tl xs') = CHR ''/''")
          case True
          obtain ys where ys: "xs' = CHR ''.'' # ys" using True xs'ne by (cases xs') auto
          have ysne: "ys \<noteq> []" using lastxs' ys by auto
          then have lastys: "last ys = CHR ''/''" using lastxs' ys by simp
          have hdys: "hd ys = CHR ''/''" using True ys by simp
          let ?out = "(if dotdot < length out then take (backtrack out dotdot (length out - 1)) out
                       else if \<not> rooted then (if 0 < length out then out @ ''/'' else out) @ ''..''
                       else out)"
          let ?dd = "(if dotdot < length out then dotdot
                      else if \<not> rooted then length ((if 0 < length out then out @ ''/'' else out) @ ''..'')
                      else dotdot)"
          have "Clean_loop (CHR ''.'' # (CHR ''.'' # ys @ n)) rooted out dotdot
                  = Clean_loop (tl (CHR ''.'' # ys @ n)) rooted ?out ?dd"
            by (rule Clean_loop_dotdot) (use ysne hdys in auto)
          then have step: "Clean_loop (xs @ n) rooted out dotdot = Clean_loop (ys @ n) rooted ?out ?dd"
            using True Cons ys by simp
          have inv: "rooted \<longrightarrow> ?out \<noteq> [] \<and> hd ?out = CHR ''/'' \<and> 1 \<le> ?dd"
          proof
            assume r: rooted
            then have o: "out \<noteq> [] \<and> hd out = CHR ''/'' \<and> 1 \<le> dotdot" using less.prems(2) by simp
            show "?out \<noteq> [] \<and> hd ?out = CHR ''/'' \<and> 1 \<le> ?dd"
            proof (cases "dotdot < length out")
              case True
              then have "dotdot \<le> length out - 1" by arith
              then have "dotdot \<le> backtrack out dotdot (length out - 1)" by (rule backtrack_ge)
              then have "1 \<le> backtrack out dotdot (length out - 1)" using o by linarith
              then show ?thesis using True o by (cases out) (auto simp: take_Suc_conv_app_nth hd_take)
            next
              case False
              then show ?thesis using r o by simp
            qed
          qed
          have "length ys < length xs" using Cons ys by simp
          then have "\<exists>pre. Clean_loop (ys @ n) rooted ?out ?dd = pre @ n \<and> (pre = [] \<or> last pre = CHR ''/'')"
            using less.hyps [of ys ?out ?dd] inv lastys by blast
          then show ?thesis using step by simp
        next
          case notdotdot: False
          have c2: "\<not> (x = CHR ''.'' \<and> hd (xs' @ n) = CHR ''.'' \<and> (tl (xs' @ n) = [] \<or> hd (tl (xs' @ n)) = CHR ''/''))"
          proof
            assume a: "x = CHR ''.'' \<and> hd (xs' @ n) = CHR ''.'' \<and> (tl (xs' @ n) = [] \<or> hd (tl (xs' @ n)) = CHR ''/'')"
            then obtain ys where ys: "xs' = CHR ''.'' # ys" using xs'ne by (cases xs') auto
            have "ys \<noteq> []" using lastxs' ys by auto
            then show False using a ys notdotdot n by simp
          qed
          have slash_in: "CHR ''/'' \<in> set xs'" using xs'ne lastxs' last_in_set by metis
          have tw: "takeWhile (\<lambda>c. c \<noteq> CHR ''/'') (x # xs' @ n) = takeWhile (\<lambda>c. c \<noteq> CHR ''/'') (x # xs')"
            using slash_in by (simp add: takeWhile_append1 [of "CHR ''/''" xs'] xnoslash)
          obtain zs where dw: "dropWhile (\<lambda>c. c \<noteq> CHR ''/'') (x # xs') = zs"
            and dwn: "dropWhile (\<lambda>c. c \<noteq> CHR ''/'') (x # xs' @ n) = zs @ n"
            using slash_in xnoslash by (simp add: dropWhile_append1 [of "CHR ''/''" xs'])
          have zsne: "zs \<noteq> []" using dw slash_in xnoslash by (auto simp: dropWhile_eq_Nil_conv)
          have "last zs = last (x # xs')"
            using dw zsne by (metis last_appendR takeWhile_dropWhile_id)
          then have lastzs: "last zs = CHR ''/''" using lastx by simp
          have lenzs: "length zs < length xs"
            using dw Cons length_dropWhile_le [of "\<lambda>c. c \<noteq> CHR ''/''" xs'] xnoslash by auto
          let ?out = "(if rooted \<and> length out \<noteq> 1 \<or> \<not> rooted \<and> length out \<noteq> 0 then out @ ''/'' else out)
                       @ takeWhile (\<lambda>c. c \<noteq> CHR ''/'') (x # xs')"
          have step: "Clean_loop (xs @ n) rooted out dotdot = Clean_loop (zs @ n) rooted ?out dotdot"
            using Cons tw dwn Clean_loop_real [OF xnoslash c1 c2, of rooted out dotdot] by simp
          have inv: "rooted \<longrightarrow> ?out \<noteq> [] \<and> hd ?out = CHR ''/'' \<and> 1 \<le> dotdot"
            using less.prems(2) by (cases out) auto
          have "\<exists>pre. Clean_loop (zs @ n) rooted ?out dotdot = pre @ n \<and> (pre = [] \<or> last pre = CHR ''/'')"
            using less.hyps [OF lenzs, of ?out dotdot] inv lastzs by blast
          then show ?thesis using step by simp
        qed
      qed
    qed
  qed
qed

lemma Join_element:
  assumes "valid_name n"
  shows "ends_with_element (Join p n) n"
proof -
  have n0: "n \<noteq> []" and hdn: "hd n \<noteq> CHR ''/''"
    using assms by (cases n; auto simp: valid_name_def)+
  have fin: "ends_with_element (if out = [] then ''.'' else out) n"
    if "\<exists>pre. out = pre @ n \<and> (pre = [] \<or> last pre = CHR ''/'')" for out
  proof -
    from that obtain pre where o: "out = pre @ n" and p: "pre = [] \<or> last pre = CHR ''/''" by blast
    have "out \<noteq> []" using o n0 by simp
    moreover have "out = n \<or> (\<exists>q. out = q @ ''/'' @ n)"
    proof (cases "pre = []")
      case True
      then show ?thesis using o by simp
    next
      case False
      then have "pre = butlast pre @ ''/''" using p by (metis append_butlast_last_id)
      then have "out = butlast pre @ ''/'' @ n" using o by (metis append.assoc)
      then show ?thesis by blast
    qed
    ultimately show ?thesis by (simp add: ends_with_element_def)
  qed
  show ?thesis
  proof (cases "p = []")
    case True
    have "\<exists>pre. Clean_loop ([] @ n) False [] 0 = pre @ n \<and> (pre = [] \<or> last pre = CHR ''/'')"
      by (rule Clean_loop_element [OF assms]) simp_all
    then show ?thesis using True n0 hdn fin [of "Clean_loop n False [] 0"]
      by (auto simp: Join_def Clean_def Let_def split: if_splits)
  next
    case False
    show ?thesis
    proof (cases "hd p = CHR ''/''")
      case True
      have "\<exists>pre. Clean_loop ((tl p @ ''/'') @ n) True ''/'' 1 = pre @ n \<and> (pre = [] \<or> last pre = CHR ''/'')"
        by (rule Clean_loop_element [OF assms]) simp_all
      then show ?thesis using True False fin [of "Clean_loop (tl p @ ''/'' @ n) True ''/'' 1"]
        by (auto simp: Join_def Clean_def Let_def split: if_splits)
    next
      case nr: False
      have "\<exists>pre. Clean_loop ((p @ ''/'') @ n) False [] 0 = pre @ n \<and> (pre = [] \<or> last pre = CHR ''/'')"
        by (rule Clean_loop_element [OF assms]) simp_all
      then show ?thesis using nr False fin [of "Clean_loop (p @ ''/'' @ n) False [] 0"]
        by (auto simp: Join_def Clean_def Let_def split: if_splits)
    qed
  qed
qed

text \<open>Every entry of the tree has a name \<^verbatim>\<open>os.ReadDir\<close> can return.\<close>

fun valid_tree :: "fsnode \<Rightarrow> bool"
  and valid_entries :: "(string \<times> fsnode) list \<Rightarrow> bool"
where
  "valid_tree File = True"
| "valid_tree (Dir ents rderr) = valid_entries ents"
| "valid_entries [] = True"
| "valid_entries ((name1, d1) # dirs) = (valid_name name1 \<and> valid_tree d1 \<and> valid_entries dirs)"

lemma tree_files_element:
  "valid_tree node \<Longrightarrow> ends_with_element path name \<and> CHR ''/'' \<notin> set name \<Longrightarrow>
     f \<in> set (tree_files path name ancs node) \<Longrightarrow>
     ends_with_element (fst f) (fst (snd f)) \<and> CHR ''/'' \<notin> set (fst (snd f))"
  "valid_entries ents \<Longrightarrow> f \<in> set (tree_files_entries path ancs ents) \<Longrightarrow>
     ends_with_element (fst f) (fst (snd f)) \<and> CHR ''/'' \<notin> set (fst (snd f))"
proof (induction path name ancs node and path ancs ents arbitrary: f and f
       rule: tree_files_tree_files_entries.induct)
  case (1 path name ancestors)
  then show ?case by simp
next
  case (2 path name ancestors ents rderr)
  then show ?case by simp
next
  case (3 path ancestors)
  then show ?case by simp
next
  case (4 path ancestors name1 d1 dirs)
  have v: "valid_name name1" and vt: "valid_tree d1" and ve: "valid_entries dirs"
    using "4.prems"(1) by simp_all
  have e: "ends_with_element (Join path name1) name1 \<and> CHR ''/'' \<notin> set name1"
    using Join_element [OF v] v by (simp add: valid_name_def)
  from "4.prems"(2) consider
      "f \<in> set (tree_files (Join path name1) name1 ancestors d1)"
    | "f \<in> set (tree_files_entries path ancestors dirs)"
    by auto
  then show ?case
  proof cases
    case 1
    then show ?thesis using "4.IH"(1) [OF vt e] by blast
  next
    case 2
    then show ?thesis using "4.IH"(2) [OF ve] by blast
  qed
qed

text \<open>
  The loop of \<^verbatim>\<open>Ext\<close> read over the reversed path: \<open>suf\<close> is the part of the path the
  loop has passed.
\<close>

fun ext_scan :: "string \<Rightarrow> string \<Rightarrow> string" where
  "ext_scan [] suf = []"
| "ext_scan (c # cs) suf =
     (if c = CHR ''/'' then [] else if c = CHR ''.'' then c # suf else ext_scan cs (c # suf))"

lemma Ext_loop_ext_scan:
  "i \<le> length path \<Longrightarrow> Ext_loop path i = ext_scan (rev (take i path)) (drop i path)"
proof (induction i)
  case 0
  then show ?case by simp
next
  case (Suc i)
  then have i: "i < length path" by simp
  have "rev (take (Suc i) path) = path ! i # rev (take i path)"
    using i by (simp add: take_Suc_conv_app_nth)
  moreover have "drop i path = path ! i # drop (Suc i) path"
    using i by (simp add: Cons_nth_drop_Suc)
  ultimately show ?case using Suc by simp
qed

lemma Ext_ext_scan: "Ext path = ext_scan (rev path) []"
  by (simp add: Ext_def Ext_loop_ext_scan)

lemma ext_scan_stops_at_slash:
  "CHR ''/'' \<notin> set r \<Longrightarrow> ext_scan (r @ CHR ''/'' # z) suf = ext_scan r suf"
  by (induction r arbitrary: suf) auto

lemma ext_scan_no_dot:
  "CHR ''.'' \<notin> set r \<Longrightarrow> ext_scan r suf = []"
  by (induction r arbitrary: suf) auto

lemma ext_scan_dot:
  "CHR ''.'' \<notin> set r \<Longrightarrow> CHR ''/'' \<notin> set r \<Longrightarrow> ext_scan (r @ CHR ''.'' # a) suf = CHR ''.'' # rev r @ suf"
  by (induction r arbitrary: suf) auto

lemma Ext_of_element:
  assumes "ends_with_element path name" and "CHR ''/'' \<notin> set name"
  shows "Ext path = Ext name"
proof -
  from assms(1) consider "path = name" | pre where "path = pre @ ''/'' @ name"
    by (auto simp: ends_with_element_def)
  then show ?thesis
  proof cases
    case 1
    then show ?thesis by simp
  next
    case 2
    then have "rev path = rev name @ CHR ''/'' # rev pre" by simp
    then show ?thesis using assms(2) by (simp add: Ext_ext_scan ext_scan_stops_at_slash)
  qed
qed

lemma Ext_of_name:
  assumes "CHR ''/'' \<notin> set name"
  shows "(CHR ''.'' \<notin> set name \<longrightarrow> Ext name = [])
       \<and> (CHR ''.'' \<in> set name \<longrightarrow>
            (\<exists>i < length name. name ! i = CHR ''.''
               \<and> (\<forall>j. i < j \<and> j < length name \<longrightarrow> name ! j \<noteq> CHR ''.'')
               \<and> Ext name = drop i name))"
proof (intro conjI impI)
  assume "CHR ''.'' \<notin> set name"
  then show "Ext name = []" by (simp add: Ext_ext_scan ext_scan_no_dot)
next
  assume "CHR ''.'' \<in> set name"
  then obtain a b where ab: "name = a @ CHR ''.'' # b" and b: "CHR ''.'' \<notin> set b"
    using split_list_last by fastforce
  have "CHR ''/'' \<notin> set (rev b)" and "CHR ''.'' \<notin> set (rev b)" using assms ab b by auto
  then have "ext_scan (rev b @ CHR ''.'' # rev a) [] = CHR ''.'' # rev (rev b) @ []"
    by (rule ext_scan_dot [rotated])
  then have e: "Ext name = drop (length a) name" using ab by (simp add: Ext_ext_scan)
  have "\<forall>j. length a < j \<and> j < length name \<longrightarrow> name ! j \<noteq> CHR ''.''"
  proof (intro allI impI)
    fix j assume j: "length a < j \<and> j < length name"
    then have "name ! j = b ! (j - length a - 1)" using ab by (simp add: nth_append nth_Cons')
    moreover have "j - length a - 1 < length b" using j ab by auto
    ultimately show "name ! j \<noteq> CHR ''.''" using b by (metis nth_mem)
  qed
  moreover have "length a < length name" and "name ! length a = CHR ''.''" using ab by simp_all
  ultimately show "\<exists>i < length name. name ! i = CHR ''.''
               \<and> (\<forall>j. i < j \<and> j < length name \<longrightarrow> name ! j \<noteq> CHR ''.'')
               \<and> Ext name = drop i name"
    using e by blast
qed

lemma dropTrailingSlashes_noslash: "c \<noteq> CHR ''/'' \<Longrightarrow> dropTrailingSlashes (c # cs) = c # cs"
  by (cases cs) simp_all

lemma basename_element:
  assumes "root = [] \<or> last root \<noteq> CHR ''/''"
  shows "ends_with_element root (basename root) \<and> CHR ''/'' \<notin> set (basename root)"
proof (cases "root = []")
  case True
  then show ?thesis by (simp add: basename_def ends_with_element_def)
next
  case False
  then obtain c cs where r: "rev root = c # cs" by (cases "rev root") auto
  then have c: "c \<noteq> CHR ''/''" using assms False by (metis last_rev list.sel(1) rev_is_Nil_conv rev_rev_ident hd_rev)
  let ?t = "takeWhile (\<lambda>x. x \<noteq> CHR ''/'') cs"
  have b: "basename root = rev (c # ?t)"
    using r c by (simp add: basename_def dropTrailingSlashes_noslash)
  have ns: "CHR ''/'' \<notin> set (basename root)"
    using b c by (auto dest: set_takeWhileD)
  have root: "root = rev (dropWhile (\<lambda>x. x \<noteq> CHR ''/'') cs) @ rev (c # ?t)"
  proof -
    have "cs = ?t @ dropWhile (\<lambda>x. x \<noteq> CHR ''/'') cs" by simp
    then have "rev cs = rev (dropWhile (\<lambda>x. x \<noteq> CHR ''/'') cs) @ rev ?t"
      by (metis rev_append)
    moreover have "root = rev cs @ [c]" using r by (metis rev_rev_ident rev.simps(2))
    ultimately show ?thesis by simp
  qed
  show ?thesis
  proof (cases "dropWhile (\<lambda>x. x \<noteq> CHR ''/'') cs")
    case Nil
    then show ?thesis using root b ns by (simp add: ends_with_element_def)
  next
    case (Cons d ds)
    then have "d = CHR ''/''" using hd_dropWhile [of "\<lambda>x. x \<noteq> CHR ''/''" cs] by auto
    then have "root = rev ds @ ''/'' @ basename root" using root b Cons by simp
    then show ?thesis using ns by (auto simp: ends_with_element_def)
  qed
qed

text \<open>
  What the operating system guarantees of the tree at the root of a scan: the
  entries have names \<^verbatim>\<open>os.ReadDir\<close> can return, and a path that ends with a
  separator does not name a non-directory.
\<close>

definition valid_root :: "os \<Rightarrow> string \<Rightarrow> bool" where
  "valid_root sys root =
     (case Lstat sys root of
        Inl errno \<Rightarrow> True
      | Inr tree \<Rightarrow> valid_tree tree \<and> (tree = File \<longrightarrow> root = [] \<or> last root \<noteq> CHR ''/''))"

lemma scan_files_element:
  assumes "valid_root sys (Root s)" and "f \<in> set (scan_files s sys)"
  shows "ends_with_element (fst f) (fst (snd f)) \<and> CHR ''/'' \<notin> set (fst (snd f))"
proof (cases "Lstat sys (Root s)")
  case (Inl errno)
  then show ?thesis using assms(2) by (simp add: scan_files_def)
next
  case (Inr tree)
  show ?thesis
  proof (cases tree)
    case File
    then have "f = (Root s, basename (Root s), [])"
      using assms(2) Inr by (simp add: scan_files_def)
    moreover have "Root s = [] \<or> last (Root s) \<noteq> CHR ''/''"
      using assms(1) Inr File by (simp add: valid_root_def)
    ultimately show ?thesis using basename_element [of "Root s"] by simp
  next
    case (Dir ents rderr)
    then have "f \<in> set (tree_files_entries (Root s) [basename (Root s)] ents)"
      using assms(2) Inr by (simp add: scan_files_def)
    moreover have "valid_entries ents" using assms(1) Inr Dir by (simp add: valid_root_def)
    ultimately show ?thesis using tree_files_element(2) by blast
  qed
qed

section \<open>The extension of a file\<close>

text \<open>
  Claim C7. For every file of the tree of a scan, the extension the callback looks
  up in \<^verbatim>\<open>AllowedExts\<close>, \<^verbatim>\<open>filepath.Ext\<close> of the path of the walk, is read off the
  base name of the file: it is empty when the base name has no dot, and otherwise it
  is the base name from its last dot on, the dot included. A file whose extension
  is not allowed is not sent: the callback returns with the channel as it was.
\<close>

theorem extension_is_base_name_from_last_dot:
  assumes "valid_root sys (Root s)" and "(path, name, ancestors) \<in> set (scan_files s sys)"
  shows "(CHR ''.'' \<notin> set name \<longrightarrow> Ext path = [])
       \<and> (CHR ''.'' \<in> set name \<longrightarrow>
            (\<exists>i < length name. name ! i = CHR ''.''
               \<and> (\<forall>j. i < j \<and> j < length name \<longrightarrow> name ! j \<noteq> CHR ''.'')
               \<and> Ext path = drop i name))
       \<and> (\<not> index_bool (AllowedExts s) (Ext path) \<longrightarrow>
            walkFn s path (Some \<lparr>Name = name, IsDir = False\<rparr>) None sent = (None, sent))"
proof -
  have e: "ends_with_element path name \<and> CHR ''/'' \<notin> set name"
    using scan_files_element [OF assms] by simp
  then have "Ext path = Ext name" using Ext_of_element by blast
  then show ?thesis using Ext_of_name [of name] e by simp
qed

theorem extension_is_base_name_from_last_dot_witness:
  "valid_root example_os (Root example_scanner)
   \<and> (''sub/d.go'', ''d.go'', [''.'', ''sub'']) \<in> set (scan_files example_scanner example_os)
   \<and> Ext ''sub/d.go'' = ''.go''
   \<and> (\<exists>i < length ''d.go''. ''d.go'' ! i = CHR ''.'' \<and> Ext ''sub/d.go'' = drop i ''d.go'')
   \<and> \<not> index_bool (AllowedExts example_scanner) (Ext ''b.txt'')
   \<and> walkFn example_scanner ''b.txt'' (Some \<lparr>Name = ''b.txt'', IsDir = False\<rparr>) None [''a.go'']
       = (None, [''a.go''])"
proof -
  have v: "valid_root example_os (Root example_scanner)" by code_simp
  have m: "(''sub/d.go'', ''d.go'', [''.'', ''sub'']) \<in> set (scan_files example_scanner example_os)"
    by code_simp
  have m2: "(''b.txt'', ''b.txt'', [''.'']) \<in> set (scan_files example_scanner example_os)"
    by code_simp
  have x: "Ext ''sub/d.go'' = ''.go''" by code_simp
  have n: "\<not> index_bool (AllowedExts example_scanner) (Ext ''b.txt'')" by code_simp
  have d: "CHR ''.'' \<in> set ''d.go''" by simp
  show ?thesis
    using v m x n d extension_is_base_name_from_last_dot [OF v m, of "[]"]
      extension_is_base_name_from_last_dot [OF v m2, of "[''a.go'']"]
    by blast
qed

section \<open>The patterns of the ignore-file\<close>

text \<open>
  The lines of a text: the pieces between its newlines, a newline at the very end
  starting no further line.
\<close>

function text_lines :: "string \<Rightarrow> string list" where
  "text_lines data =
     (if data = [] then []
      else takeWhile (\<lambda>c. c \<noteq> CHR 0x0A) data
             # text_lines (drop 1 (dropWhile (\<lambda>c. c \<noteq> CHR 0x0A) data)))"
  by pat_completeness auto
termination
proof (relation "measure length", goal_cases)
  case 1
  show ?case by simp
next
  case (2 data)
  have "length (dropWhile (\<lambda>c. c \<noteq> CHR 0x0A) data) \<le> length data" by (rule length_dropWhile_le)
  moreover have "0 < length data" using 2 by simp
  ultimately have "length (dropWhile (\<lambda>c. c \<noteq> CHR 0x0A) data) - 1 < length data" by arith
  then show ?case by simp
qed

declare text_lines.simps [simp del]

text \<open>
  The patterns as the specification words them: the lines that are neither empty nor
  start with \<^verbatim>\<open>#\<close>, each taken as it is.
\<close>

definition spec_globPatterns :: "string \<Rightarrow> string list" where
  "spec_globPatterns data = filter (\<lambda>line. line \<noteq> [] \<and> \<not> HasPrefix line ''#'') (text_lines data)"

lemma IndexByte_takeWhile:
  "IndexByte data c = (if c \<in> set data then Some (length (takeWhile (\<lambda>x. x \<noteq> c) data)) else None)"
  by (induction data) auto

lemma text_lines_Nil: "text_lines [] = []"
  by (subst text_lines.simps) simp

lemma text_lines_Cons:
  "data \<noteq> [] \<Longrightarrow>
     text_lines data = takeWhile (\<lambda>c. c \<noteq> CHR 0x0A) data
                         # text_lines (drop 1 (dropWhile (\<lambda>c. c \<noteq> CHR 0x0A) data))"
  by (subst text_lines.simps) simp

lemma readPatterns_Nil: "readPatterns [] pats = pats"
  by (subst readPatterns.simps) (simp add: Scan_def)

lemma take_length_takeWhile: "take (length (takeWhile P xs)) xs = takeWhile P xs"
  by (induction xs) auto

lemma drop_Suc_length_takeWhile: "drop (Suc (length (takeWhile P xs))) xs = drop 1 (dropWhile P xs)"
  by (induction xs) auto

lemma takeWhile_not_mem: "c \<notin> set xs \<Longrightarrow> takeWhile (\<lambda>x. x \<noteq> c) xs = xs"
  by (induction xs) auto

lemma dropWhile_not_mem: "c \<notin> set xs \<Longrightarrow> dropWhile (\<lambda>x. x \<noteq> c) xs = []"
  by (induction xs) auto

lemma Scan_line:
  assumes "data \<noteq> []"
  shows "Scan data =
           (if length (takeWhile (\<lambda>c. c \<noteq> CHR 0x0A) data) < MaxScanTokenSize
            then Some (dropCR (takeWhile (\<lambda>c. c \<noteq> CHR 0x0A) data),
                       drop 1 (dropWhile (\<lambda>c. c \<noteq> CHR 0x0A) data))
            else None)"
proof (cases "CHR 0x0A \<in> set data")
  case True
  then have "IndexByte data (CHR 0x0A) = Some (length (takeWhile (\<lambda>c. c \<noteq> CHR 0x0A) data))"
    by (simp add: IndexByte_takeWhile)
  then show ?thesis using assms
    by (simp add: Scan_def take_length_takeWhile drop_Suc_length_takeWhile not_less)
next
  case False
  then have "IndexByte data (CHR 0x0A) = None" by (simp add: IndexByte_takeWhile)
  then show ?thesis using assms False
    by (simp add: Scan_def takeWhile_not_mem dropWhile_not_mem not_less)
qed

lemma readPatterns_step:
  assumes "Scan data = Some (text, rest)"
  shows "readPatterns data pats =
           readPatterns rest
             (if TrimSpace text \<noteq> [] \<and> \<not> HasPrefix (TrimSpace text) ''#''
              then pats @ [TrimSpace text] else pats)"
  using assms by (subst readPatterns.simps) (simp add: Let_def)

lemma readPatterns_stop: "Scan data = None \<Longrightarrow> readPatterns data pats = pats"
  by (subst readPatterns.simps) simp

lemma readPatterns_lines:
  "readPatterns data pats =
     pats @ filter (\<lambda>line. line \<noteq> [] \<and> \<not> HasPrefix line ''#'')
              (map (\<lambda>line. TrimSpace (dropCR line))
                 (takeWhile (\<lambda>line. length line < MaxScanTokenSize) (text_lines data)))"
proof (induction "length data" arbitrary: data pats rule: less_induct)
  case less
  show ?case
  proof (cases "data = []")
    case True
    then show ?thesis by (simp add: readPatterns_Nil text_lines_Nil)
  next
    case False
    let ?first = "takeWhile (\<lambda>c. c \<noteq> CHR 0x0A) data"
    let ?rest = "drop 1 (dropWhile (\<lambda>c. c \<noteq> CHR 0x0A) data)"
    have tl: "text_lines data = ?first # text_lines ?rest" using False by (rule text_lines_Cons)
    show ?thesis
    proof (cases "length ?first < MaxScanTokenSize")
      case long: False
      then have "Scan data = None" using Scan_line [OF False] by simp
      then have "readPatterns data pats = pats" by (rule readPatterns_stop)
      then show ?thesis using tl long by simp
    next
      case short: True
      then have sc: "Scan data = Some (dropCR ?first, ?rest)" using Scan_line [OF False] by simp
      have shorter: "length ?rest < length data" using Scan_shorter [OF sc] .
      note step = readPatterns_step [OF sc, of pats]
      show ?thesis
        unfolding step less.hyps [OF shorter] using tl short by simp
    qed
  qed
qed

lemma NewScanner_Patterns_lines:
  "Patterns (fst (NewScanner root ignoreFile extensions sys)) =
     (case Open sys ignoreFile of
        Inl errno \<Rightarrow> []
      | Inr data \<Rightarrow>
          filter (\<lambda>line. line \<noteq> [] \<and> \<not> HasPrefix line ''#'')
            (map (\<lambda>line. TrimSpace (dropCR line))
               (takeWhile (\<lambda>line. length line < MaxScanTokenSize) (text_lines data))))"
proof -
  have "Patterns (fst (NewScanner root ignoreFile extensions sys)) =
     (case Open sys ignoreFile of
        Inl errno \<Rightarrow> []
      | Inr data \<Rightarrow> readPatterns data [])"
    by (simp add: NewScanner_def Let_def fold_AllowedExts_frame split: sum.splits)
  then show ?thesis by (simp add: readPatterns_lines split: sum.splits)
qed

text \<open>
  An ignore-file of two lines, the pattern \<^verbatim>\<open>*.log\<close> followed by a space, and a comment
  that is indented.
\<close>

definition padded_ignore_file :: string where
  "padded_ignore_file = ''*.log '' @ [CHR 0x0A] @ ''  # logs'' @ [CHR 0x0A]"

definition padded_ignore_os :: os where
  "padded_ignore_os = example_os\<lparr>Open := (\<lambda>p. Inr padded_ignore_file)\<rparr>"

lemma padded_ignore_file_lines: "text_lines padded_ignore_file = [''*.log '', ''  # logs'']"
  by code_simp

lemma padded_ignore_file_patterns:
  "Patterns (fst (NewScanner ''.'' ''.gitignore'' [''.go''] padded_ignore_os)) = [''*.log'']"
proof -
  have o: "Open padded_ignore_os ''.gitignore'' = Inr padded_ignore_file"
    by (simp add: padded_ignore_os_def)
  have t: "takeWhile (\<lambda>line. length line < MaxScanTokenSize) [''*.log '', ''  # logs'']
             = [''*.log '', ''  # logs'']"
    by (simp add: MaxScanTokenSize_def)
  have f: "filter (\<lambda>line. line \<noteq> [] \<and> \<not> HasPrefix line ''#'')
            (map (\<lambda>line. TrimSpace (dropCR line)) [''*.log '', ''  # logs'']) = [''*.log'']"
    by code_simp
  show ?thesis
    unfolding NewScanner_Patterns_lines o padded_ignore_file_lines sum.case t f by (rule refl)
qed

text \<open>
  Claim C6, as amended. The patterns \<^verbatim>\<open>NewScanner\<close> loads are the lines of the
  ignore-file, each without a trailing carriage return and with the white space at
  its two ends removed, that are then neither empty nor start with \<^verbatim>\<open>#\<close>, in their
  order; the reading ends before the first line of \<^verbatim>\<open>MaxScanTokenSize\<close> bytes or
  more. The callback matches each pattern against the base name of a file, and the
  path has a part in the extension only.
\<close>

theorem loaded_patterns_are_trimmed_lines:
  "Patterns (fst (NewScanner root ignoreFile extensions sys)) =
     (case Open sys ignoreFile of
        Inl errno \<Rightarrow> []
      | Inr data \<Rightarrow>
          filter (\<lambda>line. line \<noteq> [] \<and> \<not> HasPrefix line ''#'')
            (map (\<lambda>line. TrimSpace (dropCR line))
               (takeWhile (\<lambda>line. length line < MaxScanTokenSize) (text_lines data))))
   \<and> walkFn s path (Some \<lparr>Name = name, IsDir = False\<rparr>) None sent =
       (None, if index_bool (AllowedExts s) (Ext path) \<and> (\<forall>p \<in> set (Patterns s). \<not> fst (Match p name))
              then sent @ [path] else sent)"
  using NewScanner_Patterns_lines [of root ignoreFile extensions sys] walkFn_file [of s path name sent]
  by blast

theorem loaded_patterns_are_trimmed_lines_witness:
  "Open padded_ignore_os ''.gitignore'' = Inr padded_ignore_file
   \<and> text_lines padded_ignore_file = [''*.log '', ''  # logs'']
   \<and> Patterns (fst (NewScanner ''.'' ''.gitignore'' [''.go''] padded_ignore_os))
       = filter (\<lambda>line. line \<noteq> [] \<and> \<not> HasPrefix line ''#'')
           (map (\<lambda>line. TrimSpace (dropCR line))
              (takeWhile (\<lambda>line. length line < MaxScanTokenSize) [''*.log '', ''  # logs'']))
   \<and> fst (Match ''d*'' ''d.go'') \<and> \<not> fst (Match ''d*'' ''sub/d.go'')
   \<and> walkFn (example_scanner\<lparr>Patterns := [''d*'']\<rparr>) ''sub/d.go''
         (Some \<lparr>Name = ''d.go'', IsDir = False\<rparr>) None [''a.go'']
       = (None, [''a.go''])"
proof -
  have o: "Open padded_ignore_os ''.gitignore'' = Inr padded_ignore_file"
    by (simp add: padded_ignore_os_def)
  have m: "fst (Match ''d*'' ''d.go'') \<and> \<not> fst (Match ''d*'' ''sub/d.go'')" by code_simp
  show ?thesis
    using loaded_patterns_are_trimmed_lines
            [of "''.''" "''.gitignore''" "[''.go'']" padded_ignore_os
                "example_scanner\<lparr>Patterns := [''d*'']\<rparr>" "''sub/d.go''" "''d.go''" "[''a.go'']"]
      o m padded_ignore_file_lines
    by simp
qed

text \<open>
  The claim as it is written fails on this file. Neither line is empty or starts
  with \<^verbatim>\<open>#\<close>, so the patterns of the claim are the two lines as they are; the
  scanner loads one pattern, \<^verbatim>\<open>*.log\<close> without the space, which matches \<^verbatim>\<open>x.log\<close>
  where the line as it is does not.
\<close>

theorem loaded_patterns_are_not_the_literal_lines:
  "spec_globPatterns padded_ignore_file = [''*.log '', ''  # logs'']
   \<and> Patterns (fst (NewScanner ''.'' ''.gitignore'' [''.go''] padded_ignore_os)) = [''*.log'']
   \<and> Patterns (fst (NewScanner ''.'' ''.gitignore'' [''.go''] padded_ignore_os))
       \<noteq> spec_globPatterns padded_ignore_file
   \<and> fst (Match ''*.log'' ''x.log'') \<and> \<not> fst (Match ''*.log '' ''x.log'')"
proof -
  have s: "spec_globPatterns padded_ignore_file = [''*.log '', ''  # logs'']" by code_simp
  have m: "fst (Match ''*.log'' ''x.log'') \<and> \<not> fst (Match ''*.log '' ''x.log'')" by code_simp
  show ?thesis using s m padded_ignore_file_patterns by simp
qed

section \<open>Scanning twice\<close>

lemma fold_record_call: "fold record_call calls log = log @ calls"
  by (induction calls arbitrary: log) (simp_all add: record_call_def)

text \<open>
  Claim C8. A scan with one worker changes nothing of the file system, and what it
  delivers is a function of the scanner and of the file system alone: there is one
  sequence of pairs of a path and a content that every scan of the same tree
  delivers to its callback, in this order, whatever the callback and the state the
  caller is in. So a second scan delivers the pairs of the first: a callback that
  records its calls holds them twice, and the set of the pairs of the second scan is
  the set of the first.
\<close>

theorem scanning_twice_delivers_the_same_pairs:
  "\<exists>err calls.
      (\<forall>st. ScanForAI s 1 callback sys st = Some (err, fold callback calls st))
    \<and> ScanForAI s 1 record_call sys [] = Some (err, calls)
    \<and> ScanForAI s 1 record_call sys calls = Some (err, calls @ calls)
    \<and> set (drop (length calls) (calls @ calls)) = set calls"
proof -
  let ?err = "fst (WalkDir sys (Root s) (walkFn s) [])"
  let ?calls = "concat (map (sink_calls sys) (dispatched s sys))"
  have "ScanForAI s 1 callback sys st = Some (?err, fold callback ?calls st)" for st
    by (rule ScanForAI_workers) simp
  moreover have "ScanForAI s 1 record_call sys [] = Some (?err, ?calls)"
    using ScanForAI_workers [of 1 s record_call sys "[]"] by (simp add: fold_record_call)
  moreover have "ScanForAI s 1 record_call sys ?calls = Some (?err, ?calls @ ?calls)"
    using ScanForAI_workers [of 1 s record_call sys ?calls] by (simp add: fold_record_call)
  ultimately show ?thesis by auto
qed

end
